theory Spec2Isabelle
  imports Complex_Main
begin

section \<open>Arrays and errors\<close>

text \<open>
  A two-dimensional numpy array is the list of its rows. All entries are taken in the
  complex numbers (numpy's integer, real and complex entries alike), with exact
  arithmetic: \<open>np.sqrt(2)\<close> is the real number \<open>sqrt 2\<close>.
\<close>

type_synonym matrix = "complex list list"

datatype error = ValueError | IndexError | OverflowError | TypeError | RecursionError
  | ZeroDivisionError | OtherError

definition bind_err :: "error + 'a \<Rightarrow> ('a \<Rightarrow> error + 'b) \<Rightarrow> error + 'b" where
  "bind_err r f = (case r of Inl e \<Rightarrow> Inl e | Inr v \<Rightarrow> f v)"

text \<open>\<open>np.kron\<close> of two 2-D arrays: block \<open>(i, j)\<close> of the result is \<open>A[i][j] * B\<close>.\<close>

definition kron_row :: "complex list \<Rightarrow> complex list \<Rightarrow> complex list" where
  "kron_row ra rb = concat (map (\<lambda>a. map (\<lambda>b. a * b) rb) ra)"

definition kron :: "matrix \<Rightarrow> matrix \<Rightarrow> matrix" where
  "kron A B = concat (map (\<lambda>ra. map (\<lambda>rb. kron_row ra rb) B) A)"

text \<open>
  The accumulators of \<open>get_bra\<close> and \<open>get_ket\<close> start as the Python integer \<open>1\<close> and
  become arrays later: \<open>None\<close> is that integer, and \<open>np.kron(A, 1)\<close> is \<open>A\<close>.
\<close>

fun kron_acc :: "matrix option \<Rightarrow> matrix option \<Rightarrow> matrix option" where
  "kron_acc None None = None"
| "kron_acc (Some A) None = Some A"
| "kron_acc None (Some B) = Some B"
| "kron_acc (Some A) (Some B) = Some (kron A B)"

text \<open>Elementwise \<open>+\<close>, \<open>-\<close>, and multiplication and division by a scalar. The functions
  of this development only ever add and subtract arrays of one shape.\<close>

definition madd :: "matrix \<Rightarrow> matrix \<Rightarrow> matrix" where
  "madd A B = map2 (\<lambda>ra rb. map2 (\<lambda>a b. a + b) ra rb) A B"

definition msub :: "matrix \<Rightarrow> matrix \<Rightarrow> matrix" where
  "msub A B = map2 (\<lambda>ra rb. map2 (\<lambda>a b. a - b) ra rb) A B"

definition smul :: "complex \<Rightarrow> matrix \<Rightarrow> matrix" where
  "smul c A = map (map (\<lambda>a. c * a)) A"

definition sdiv :: "matrix \<Rightarrow> complex \<Rightarrow> matrix" where
  "sdiv A c = map (map (\<lambda>a. a / c)) A"

text \<open>\<open>np.identity(n)\<close>, \<open>np.zeros([r, c])\<close> and \<open>np.diag(v)\<close> of a 1-D \<open>v\<close>.\<close>

definition np_identity :: "nat \<Rightarrow> matrix" where
  "np_identity n = map (\<lambda>i. map (\<lambda>j. if i = j then 1 else 0) [0..<n]) [0..<n]"


definition np_diag :: "complex list \<Rightarrow> matrix" where
  "np_diag v = map (\<lambda>i. map (\<lambda>j. if i = j then v ! i else 0) [0..<length v]) [0..<length v]"

text \<open>Python indexing into a sequence of length \<open>n\<close>: a negative index counts from the
  end, anything else out of range raises \<open>IndexError\<close>.\<close>

definition py_index :: "nat \<Rightarrow> int \<Rightarrow> error + nat" where
  "py_index n i =
     (let j = (if i < 0 then int n + i else i)
      in if 0 \<le> j \<and> j < int n then Inr (nat j) else Inl IndexError)"

section \<open>QuantumCircuitMatrix: basis vectors\<close>

definition qubits_to_bits :: "nat \<Rightarrow> nat" where
  "qubits_to_bits numQubits = 2 ^ numQubits"

text \<open>\<open>get_qubit_vector\<close>: a row of \<open>2 ** numQubits\<close> zeros, the entry at every index of
  \<open>args\<close> set to 1 (entry 0 when there is none), returned transposed.\<close>

fun set_ones :: "complex list \<Rightarrow> int list \<Rightarrow> error + complex list" where
  "set_ones row [] = Inr row"
| "set_ones row (argv # args) =
     (case py_index (length row) argv of
        Inl e \<Rightarrow> Inl e
      | Inr j \<Rightarrow> set_ones (row[j := 1]) args)"

definition get_qubit_vector :: "nat \<Rightarrow> int list \<Rightarrow> error + matrix" where
  "get_qubit_vector numQubits args =
     (let numBits = qubits_to_bits numQubits in
      case set_ones (replicate numBits 0) args of
        Inl e \<Rightarrow> Inl e
      | Inr row \<Rightarrow> Inr (map (\<lambda>x. [x]) (if length args = 0 then row[0 := 1] else row)))"

text \<open>The loop \<open>while qubits_to_bits(num_qubits) < argv: num_qubits += 1\<close>.\<close>

function count_qubits :: "nat \<Rightarrow> int \<Rightarrow> nat" where
  "count_qubits num_qubits argv =
     (if int (qubits_to_bits num_qubits) < argv then count_qubits (num_qubits + 1) argv
      else num_qubits)"
  by pat_completeness auto
termination
  by (relation "measure (\<lambda>(k, v). nat (v - int (2 ^ k)))") (auto simp: qubits_to_bits_def)

declare count_qubits.simps [simp del]

definition zero_bra :: matrix where "zero_bra = [[1, 0]]"
definition one_bra :: matrix where "one_bra = [[0, 1]]"
definition plus_bra :: matrix where
  "plus_bra = madd (sdiv zero_bra (complex_of_real (sqrt 2))) (sdiv one_bra (complex_of_real (sqrt 2)))"
definition minus_bra :: matrix where
  "minus_bra = msub (sdiv zero_bra (complex_of_real (sqrt 2))) (sdiv one_bra (complex_of_real (sqrt 2)))"

definition zero_ket :: matrix where "zero_ket = [[1], [0]]"
definition one_ket :: matrix where "one_ket = [[0], [1]]"
definition plus_ket :: matrix where
  "plus_ket = madd (sdiv zero_ket (complex_of_real (sqrt 2))) (sdiv one_ket (complex_of_real (sqrt 2)))"
definition minus_ket :: matrix where
  "minus_ket = msub (sdiv zero_ket (complex_of_real (sqrt 2))) (sdiv one_ket (complex_of_real (sqrt 2)))"

text \<open>
  A positional argument of \<open>get_bra\<close>/\<open>get_ket\<close>: an \<open>int\<close>, an \<open>ndarray\<close>, a \<open>str\<close>, or a
  value of another type, given by what \<open>int(argv)\<close> does on it (\<open>TypeError\<close> is caught and
  the argument skipped, any other exception leaves the function).
\<close>

datatype arg = IntArg int | ArrayArg matrix | StrArg string | OtherArg "error + int"

text \<open>The loop over \<open>qubit_string\<close>: every symbol's primitive is tensored on the left of
  \<open>braTEMP\<close>/\<open>ketTEMP\<close>.\<close>

definition symbol_bra :: "char \<Rightarrow> error + matrix" where
  "symbol_bra q =
     (if q = CHR ''0'' then Inr zero_bra
      else if q = CHR ''1'' then Inr one_bra
      else if q = CHR ''+'' then Inr plus_bra
      else if q = CHR ''-'' then Inr minus_bra
      else Inl ValueError)"

definition symbol_ket :: "char \<Rightarrow> error + matrix" where
  "symbol_ket q =
     (if q = CHR ''0'' then Inr zero_ket
      else if q = CHR ''1'' then Inr one_ket
      else if q = CHR ''+'' then Inr plus_ket
      else if q = CHR ''-'' then Inr minus_ket
      else Inl ValueError)"

fun symbols_loop :: "(char \<Rightarrow> error + matrix) \<Rightarrow> string \<Rightarrow> matrix option \<Rightarrow> error + matrix option" where
  "symbols_loop prim [] tmp = Inr tmp"
| "symbols_loop prim (q # qs) tmp =
     (case prim q of
        Inl e \<Rightarrow> Inl e
      | Inr q_vec \<Rightarrow> symbols_loop prim qs (kron_acc (Some q_vec) tmp))"

text \<open>The second half of both functions: the block of \<open>qubit_string\<close> replaces an
  accumulator that is still the integer 1 and is tensored on the left of any other; an
  accumulator that is still 1 at the end gives the default \<open>zero\<close>.\<close>

definition string_part :: "(char \<Rightarrow> error + matrix) \<Rightarrow> string \<Rightarrow> matrix option \<Rightarrow> error + matrix option" where
  "string_part prim qubit_string acc =
     (if length qubit_string \<noteq> 0 then
        (case symbols_loop prim qubit_string None of
           Inl e \<Rightarrow> Inl e
         | Inr tmp \<Rightarrow> Inr (if acc = None then tmp else kron_acc tmp acc))
      else Inr acc)"

definition or_default :: "matrix \<Rightarrow> matrix option \<Rightarrow> matrix" where
  "or_default zero acc = (case acc of None \<Rightarrow> zero | Some v \<Rightarrow> v)"

text \<open>\<open>get_bra(qubit_string=s)\<close> and \<open>get_ket(qubit_string=s)\<close>, which both functions call
  on a positional \<open>str\<close>.\<close>

definition get_bra_string :: "string \<Rightarrow> error + matrix" where
  "get_bra_string s = bind_err (string_part symbol_bra s None) (\<lambda>bra. Inr (or_default zero_bra bra))"

definition get_ket_string :: "string \<Rightarrow> error + matrix" where
  "get_ket_string s = bind_err (string_part symbol_ket s None) (\<lambda>ket. Inr (or_default zero_ket ket))"

text \<open>The \<open>isinstance(argv, int)\<close> block.\<close>

definition int_block :: "matrix \<Rightarrow> matrix \<Rightarrow> int \<Rightarrow> matrix option \<Rightarrow> error + matrix option" where
  "int_block zero one argv acc =
     (if argv = 0 then Inr (kron_acc (Some zero) acc)
      else if argv = 1 then Inr (kron_acc (Some one) acc)
      else bind_err (get_qubit_vector (count_qubits 1 argv) [argv])
             (\<lambda>v. Inr (kron_acc (Some v) acc)))"

text \<open>One pass of the loop \<open>for argv in args[::-1]\<close>.\<close>

fun bra_arg :: "arg \<Rightarrow> matrix option \<Rightarrow> error + matrix option" where
  "bra_arg (ArrayArg A) bra = Inr (kron_acc (Some A) bra)"
| "bra_arg (StrArg s) bra = bind_err (get_bra_string s) (\<lambda>braTEMP. Inr (kron_acc (Some braTEMP) bra))"
| "bra_arg (OtherArg r) bra =
     (case r of
        Inl e \<Rightarrow> if e = TypeError then Inr bra else Inl e
      | Inr argv \<Rightarrow> int_block zero_bra one_bra argv bra)"
| "bra_arg (IntArg argv) bra = int_block zero_bra one_bra argv bra"

fun ket_arg :: "arg \<Rightarrow> matrix option \<Rightarrow> error + matrix option" where
  "ket_arg (ArrayArg A) ket = Inr (kron_acc (Some A) ket)"
| "ket_arg (StrArg s) ket = bind_err (get_ket_string s) (\<lambda>ketTEMP. Inr (kron_acc (Some ketTEMP) ket))"
| "ket_arg (OtherArg r) ket =
     (case r of
        Inl e \<Rightarrow> if e = TypeError then Inr ket else Inl e
      | Inr argv \<Rightarrow> int_block zero_ket one_ket argv ket)"
| "ket_arg (IntArg argv) ket = int_block zero_ket one_ket argv ket"

fun args_loop :: "(arg \<Rightarrow> matrix option \<Rightarrow> error + matrix option) \<Rightarrow> arg list \<Rightarrow> matrix option \<Rightarrow> error + matrix option" where
  "args_loop step [] acc = Inr acc"
| "args_loop step (argv # rest) acc =
     (case step argv acc of
        Inl e \<Rightarrow> Inl e
      | Inr acc' \<Rightarrow> args_loop step rest acc')"

definition get_bra :: "arg list \<Rightarrow> string \<Rightarrow> error + matrix" where
  "get_bra args qubit_string =
     bind_err (args_loop bra_arg (rev args) None) (\<lambda>bra.
     bind_err (string_part symbol_bra qubit_string bra) (\<lambda>bra.
     Inr (or_default zero_bra bra)))"

definition get_ket :: "arg list \<Rightarrow> string \<Rightarrow> error + matrix" where
  "get_ket args qubit_string =
     bind_err (args_loop ket_arg (rev args) None) (\<lambda>ket.
     bind_err (string_part symbol_ket qubit_string ket) (\<lambda>ket.
     Inr (or_default zero_ket ket)))"

section \<open>QuantumCircuitMatrix: gates\<close>

text \<open>The gate constructors built from outer products. They call \<open>get_bra\<close> and
  \<open>get_ket\<close>, so they return whatever those raise.\<close>

definition Pauli_X_Gate :: "error + matrix" where
  "Pauli_X_Gate =
     bind_err (get_bra [IntArg 0] []) (\<lambda>zero_bra'.
     bind_err (get_bra [IntArg 1] []) (\<lambda>one_bra'.
     bind_err (get_ket [IntArg 0] []) (\<lambda>zero_ket'.
     bind_err (get_ket [IntArg 1] []) (\<lambda>one_ket'.
     Inr (madd (kron zero_bra' one_ket') (kron zero_ket' one_bra'))))))"

definition Pauli_Y_Gate :: "error + matrix" where
  "Pauli_Y_Gate =
     bind_err (get_bra [IntArg 0] []) (\<lambda>zero_bra'.
     bind_err (get_bra [IntArg 1] []) (\<lambda>one_bra'.
     bind_err (get_ket [IntArg 0] []) (\<lambda>zero_ket'.
     bind_err (get_ket [IntArg 1] []) (\<lambda>one_ket'.
     Inr (smul \<i> (msub (kron one_ket' zero_bra') (kron zero_ket' one_bra')))))))"

definition Pauli_Z_Gate :: "error + matrix" where
  "Pauli_Z_Gate =
     bind_err (get_bra [IntArg 0] []) (\<lambda>zero_bra'.
     bind_err (get_bra [IntArg 1] []) (\<lambda>one_bra'.
     bind_err (get_ket [IntArg 0] []) (\<lambda>zero_ket'.
     bind_err (get_ket [IntArg 1] []) (\<lambda>one_ket'.
     Inr (msub (kron zero_ket' zero_bra') (kron one_ket' one_bra'))))))"

definition CU_Gate :: "matrix \<Rightarrow> error + matrix" where
  "CU_Gate U =
     bind_err (get_bra [IntArg 0] []) (\<lambda>b0.
     bind_err (get_ket [IntArg 0] []) (\<lambda>k0.
     bind_err (get_bra [IntArg 1] []) (\<lambda>b1.
     bind_err (get_ket [IntArg 1] []) (\<lambda>k1.
     let zero_prod = kron b0 k0; one_prod = kron b1 k1
     in Inr (madd (madd (kron zero_prod zero_prod) (kron zero_prod one_prod))
                  (kron one_prod U))))))"

definition CNOT_Gate :: "error + matrix" where
  "CNOT_Gate = bind_err Pauli_X_Gate (\<lambda>Pauli_X_gate'. CU_Gate Pauli_X_gate')"

definition Hadamard_Gate :: "error + matrix" where
  "Hadamard_Gate =
     bind_err (get_bra [StrArg ''0''] []) (\<lambda>zero_bra'.
     bind_err (get_bra [StrArg ''1''] []) (\<lambda>one_bra'.
     bind_err (get_ket [StrArg ''+''] []) (\<lambda>plus_ket'.
     bind_err (get_ket [StrArg ''-''] []) (\<lambda>minus_ket'.
     Inr (madd (kron plus_ket' zero_bra') (kron minus_ket' one_bra'))))))"

definition Swap_Gate :: "error + matrix" where
  "Swap_Gate =
     bind_err (get_bra [StrArg ''00''] []) (\<lambda>zero_zero_bra.
     bind_err (get_bra [StrArg ''01''] []) (\<lambda>zero_one_bra.
     bind_err (get_bra [StrArg ''10''] []) (\<lambda>one_zero_bra.
     bind_err (get_bra [StrArg ''11''] []) (\<lambda>one_one_bra.
     bind_err (get_ket [StrArg ''00''] []) (\<lambda>zero_zero_ket.
     bind_err (get_ket [StrArg ''01''] []) (\<lambda>zero_one_ket.
     bind_err (get_ket [StrArg ''10''] []) (\<lambda>one_zero_ket.
     bind_err (get_ket [StrArg ''11''] []) (\<lambda>one_one_ket.
     Inr (madd (madd (madd (kron zero_zero_ket zero_zero_bra)
                           (kron one_zero_ket zero_one_bra))
                     (kron zero_one_ket one_zero_bra))
               (kron one_one_ket one_one_bra))))))))))"

text \<open>The fixed constants of the class.\<close>

definition one_qubit_identity_gate :: matrix where
  "one_qubit_identity_gate = [[1, 0], [0, 1]]"

definition Pauli_X_gate :: matrix where
  "Pauli_X_gate = [[0, 1], [1, 0]]"

definition Pauli_Y_gate :: matrix where
  "Pauli_Y_gate = [[0, - \<i>], [\<i>, 0]]"

definition Pauli_Z_gate :: matrix where
  "Pauli_Z_gate = [[1, 0], [0, - 1]]"

definition CNOT_gate :: matrix where
  "CNOT_gate = madd (kron (np_diag [1, 0]) one_qubit_identity_gate)
                    (kron (np_diag [0, 1]) Pauli_X_gate)"

definition Hadamard_gate :: matrix where
  "Hadamard_gate = sdiv [[1, 1], [1, - 1]] (complex_of_real (sqrt 2))"

definition swap_gate :: matrix where
  "swap_gate = [[1, 0, 0, 0], [0, 0, 1, 0], [0, 1, 0, 0], [0, 0, 0, 1]]"

definition identityGate :: "nat \<Rightarrow> matrix" where
  "identityGate numQubits = np_identity (qubits_to_bits numQubits)"

text \<open>
  \<open>identity_gate\<close>: Python's \<open>sum\<close> starts from the integer 0, which numpy adds to every
  entry of the first array. The helper recurses on \<open>numQubits - 1\<close> until it meets 1; from
  0 it never does, and Python ends the recursion with \<open>RecursionError\<close>.
\<close>

datatype npval = PyInt int | NdArray matrix

fun np_add :: "npval \<Rightarrow> matrix \<Rightarrow> npval" where
  "np_add (PyInt c) M = NdArray (map (map (\<lambda>a. of_int c + a)) M)"
| "np_add (NdArray A) M = NdArray (madd A M)"

definition py_sum :: "matrix list \<Rightarrow> npval" where
  "py_sum ms = foldl np_add (PyInt 0) ms"

definition zero_prod :: "error + matrix" where
  "zero_prod = bind_err (get_ket [IntArg 0] []) (\<lambda>k. bind_err (get_bra [IntArg 0] []) (\<lambda>b. Inr (kron k b)))"

definition one_prod :: "error + matrix" where
  "one_prod = bind_err (get_ket [IntArg 1] []) (\<lambda>k. bind_err (get_bra [IntArg 1] []) (\<lambda>b. Inr (kron k b)))"

fun identity_gate_helper :: "nat \<Rightarrow> error + matrix list" where
  "identity_gate_helper 0 = bind_err zero_prod (\<lambda>zp. bind_err one_prod (\<lambda>op. Inl RecursionError))"
| "identity_gate_helper (Suc 0) = bind_err zero_prod (\<lambda>zp. bind_err one_prod (\<lambda>op. Inr [zp, op]))"
| "identity_gate_helper (Suc (Suc n)) =
     bind_err zero_prod (\<lambda>zp. bind_err one_prod (\<lambda>op.
       (case identity_gate_helper (Suc n) of
          Inl e \<Rightarrow> Inl e
        | Inr qs \<Rightarrow> Inr (concat (map (\<lambda>q. [kron q zp, kron q op]) qs)))))"

definition identity_gate :: "nat \<Rightarrow> error + npval" where
  "identity_gate numQubits = bind_err (identity_gate_helper numQubits) (\<lambda>qs. Inr (py_sum qs))"

text \<open>The generalised NOT gates. \<open>np.array([])\<close> is the empty array.\<close>

fun quantum_not_gate_matrix :: "nat \<Rightarrow> matrix" where
  "quantum_not_gate_matrix numQubits =
     (if numQubits = 0 then []
      else if numQubits = 1 then Pauli_X_gate
      else if numQubits = 2 then CNOT_gate
      else madd (kron (np_diag [1, 0]) (identityGate (numQubits - 1)))
                (kron (np_diag [0, 1]) (quantum_not_gate_matrix (numQubits - 1))))"

declare quantum_not_gate_matrix.simps [simp del]

definition reverse_quantum_not_gate_matrix :: "nat \<Rightarrow> matrix" where
  "reverse_quantum_not_gate_matrix numQubits =
     (if numQubits = 0 then []
      else if numQubits = 1 then Pauli_X_gate
      else if numQubits = 2 then
        madd (kron (np_diag [0, 1]) (np_identity 2)) (kron (np_diag [1, 0]) Pauli_X_gate)
      else madd (kron (np_diag [0, 1]) (identityGate (numQubits - 1)))
                (kron (np_diag [1, 0]) (quantum_not_gate_matrix (numQubits - 1))))"

section \<open>QuantumCircuitMatrix: qubit states and swaps\<close>












section \<open>Python floats\<close>

text \<open>
  A Python \<open>float\<close> is a double (IEEE 754 binary64): 53 significant bits, rounded to
  nearest with ties to even, and nothing beyond the largest double, which is just below
  \<open>2 ** 1024\<close>: where a conversion or a division would go there Python raises
  \<open>OverflowError\<close>. The floats of the functions below hold whole numbers or halves.
\<close>

text \<open>The number of binary digits of a natural number, and the double nearest to it:
  the 53 leading bits are kept.\<close>

function bits :: "nat \<Rightarrow> nat" where
  "bits n = (if n = 0 then 0 else Suc (bits (n div 2)))"
  by pat_completeness auto
termination
  by (relation "measure (\<lambda>n. n)") auto

declare bits.simps [simp del]

definition fl :: "nat \<Rightarrow> nat" where
  "fl n =
     (if bits n \<le> 53 then n
      else
        (let e = bits n - 53; q = n div 2 ^ e; r = n mod 2 ^ e; half = 2 ^ (e - 1)
         in (if half < r \<or> (r = half \<and> odd q) then q + 1 else q) * 2 ^ e))"

text \<open>A number that rounds to \<open>2 ** 1024\<close> or more has no double.\<close>

definition float_bound :: nat where
  "float_bound = 2 ^ 1024"




section \<open>ShorFactoringAlgorithm: controlled multiplication\<close>








section \<open>ShorFactoringAlgorithm: the factorization loop\<close>

text \<open>
  \<open>num\<close> is a natural number, as the docstring says, and a Python \<open>int\<close> when the function
  is called. Every \<open>num /= d\<close> is Python's true division and leaves a \<open>float\<close> in \<open>num\<close>, so
  the cofactor is a number of one of the two types, and where the code mixes it with an
  \<open>int\<close> or a \<open>float\<close> the conversions of Python are written out. A float is a double
  (IEEE 754 binary64): 53 significant bits, rounded to nearest with ties to even, and
  \<open>OverflowError\<close> where Python raises it beyond the largest double. All floats of the
  function hold whole numbers. \<open>show_errors\<close> only prints and is left out; the extra
  \<open>*args\<close> are passed on to \<open>func\<close> unchanged and are part of the period function here.
\<close>

text \<open>The cofactor: a Python \<open>int\<close>, or a \<open>float\<close> that holds a whole number.\<close>

datatype number = IntN nat | FloatN nat

fun val :: "number \<Rightarrow> nat" where
  "val (IntN n) = n"
| "val (FloatN m) = m"

text \<open>The conversion of an \<open>int\<close> operand to \<open>float\<close>, which Python makes when the other
  operand is a \<open>float\<close>; a \<open>float\<close> operand is taken as it is.\<close>

definition to_float :: "nat \<Rightarrow> error + nat" where
  "to_float n = (if float_bound \<le> fl n then Inl OverflowError else Inr (fl n))"

definition as_float :: "number \<Rightarrow> error + nat" where
  "as_float num = (case num of IntN n \<Rightarrow> to_float n | FloatN m \<Rightarrow> Inr m)"

text \<open>
  \<open>num / d\<close>, true division by an \<open>int\<close>: the quotient as a double, correctly rounded,
  \<open>OverflowError\<close> when it has none and \<open>ZeroDivisionError\<close> for \<open>d = 0\<close>. In every division of
  the function the divisor divides the number (it is 2 or 5 after the test \<open>num % d == 0\<close>,
  a greatest common divisor with \<open>num\<close>, or the square that \<open>num\<close> is), so the quotient is
  whole and \<open>div\<close> is the exact quotient; a divisor of a double is a double itself, so
  its own conversion, when \<open>num\<close> is a \<open>float\<close>, changes nothing.
\<close>

definition truediv :: "number \<Rightarrow> nat \<Rightarrow> error + number" where
  "truediv num d =
     (if d = 0 then Inl ZeroDivisionError
      else if float_bound \<le> fl (val num div d) then Inl OverflowError
      else Inr (FloatN (fl (val num div d))))"

text \<open>\<open>guessFactor % num\<close> with an \<open>int\<close> on the left, and \<open>x % num\<close> with a \<open>float\<close> on the
  left: the remainder of floats is exact.\<close>

definition int_mod :: "nat \<Rightarrow> number \<Rightarrow> error + nat" where
  "int_mod g num =
     (case num of
        IntN n \<Rightarrow> if n = 0 then Inl ZeroDivisionError else Inr (g mod n)
      | FloatN m \<Rightarrow>
          bind_err (to_float g) (\<lambda>g'. if m = 0 then Inl ZeroDivisionError else Inr (g' mod m)))"

definition float_mod :: "nat \<Rightarrow> number \<Rightarrow> error + nat" where
  "float_mod x num =
     bind_err (as_float num) (\<lambda>m. if m = 0 then Inl ZeroDivisionError else Inr (x mod m))"

text \<open>Modelled from the spec: \<open>FactorFuncs.isqrt\<close> (\<open>src.MiscFunctions\<close> is not among the
  sources), the integer square root, for which \<open>isqrt(x) ** 2 == x\<close> is the perfect-square
  test. It is the largest \<open>k\<close> with \<open>k * k \<le> x\<close>.\<close>

fun isqrt_upto :: "nat \<Rightarrow> nat \<Rightarrow> nat" where
  "isqrt_upto 0 x = 0"
| "isqrt_upto (Suc k) x = (if Suc k * Suc k \<le> x then Suc k else isqrt_upto k x)"

definition isqrt :: "nat \<Rightarrow> nat" where
  "isqrt x = isqrt_upto x x"

text \<open>
  \<open>int(np.sqrt(num))\<close>, which the code takes of a perfect square only. \<open>np.sqrt\<close> works in
  doubles: of a \<open>float\<close> that is a square it is the exact root, and of an \<open>int\<close> below
  \<open>2 ** 64\<close> it is the root of the nearest double, which rounds to the exact root again.
  An \<open>int\<close> of \<open>2 ** 64\<close> or more fits no integer type of numpy, and \<open>np.sqrt\<close> raises
  \<open>TypeError\<close> on it.
\<close>

definition int_np_sqrt :: "number \<Rightarrow> error + nat" where
  "int_np_sqrt num =
     (case num of
        IntN n \<Rightarrow> if 2 ^ 64 \<le> n then Inl TypeError else Inr (isqrt n)
      | FloatN m \<Rightarrow> Inr (isqrt m))"

text \<open>Modelled from the spec: \<open>FactorFuncs.gcd\<close> (not among the sources), the greatest
  common divisor, an \<open>int\<close>.\<close>

definition py_gcd :: "nat \<Rightarrow> nat \<Rightarrow> nat" where
  "py_gcd x y = gcd x y"

text \<open>
  The period function \<open>func(num, guessFactor, *args)\<close> is a parameter of the source. It
  is given the value of the cofactor and returns a period, a natural number, or raises.
  \<open>random.randint(a, b)\<close> raises \<open>ValueError\<close> on an empty range and else returns a number
  of \<open>[a, b]\<close>; which one is decided by a raw draw \<open>r\<close>, and every number of the range is
  the result of some draw.
\<close>

type_synonym period_fn = "nat \<Rightarrow> nat \<Rightarrow> error + nat"

definition randint :: "nat \<Rightarrow> int \<Rightarrow> int \<Rightarrow> error + int" where
  "randint r a b = (if b < a then Inl ValueError else Inr (a + int r mod (b - a + 1)))"

text \<open>Modelled from the spec: \<open>FactorFuncs.period\<close> (not among the sources), the default
  \<open>func\<close>, the classical modular period: the smallest \<open>r \<ge> 1\<close> with
  \<open>a ** r % num == 1\<close>. A period is below \<open>num\<close>, so \<open>num\<close> steps find it; when there is none
  the function raises the validation error of its contract.\<close>

fun period_search :: "nat \<Rightarrow> nat \<Rightarrow> nat \<Rightarrow> nat \<Rightarrow> nat \<Rightarrow> error + nat" where
  "period_search 0 num a r v = (if v = 1 then Inr r else Inl ValueError)"
| "period_search (Suc fuel) num a r v =
     (if v = 1 then Inr r else period_search fuel num a (r + 1) (v * a mod num))"

definition FactorFuncs_period :: period_fn where
  "FactorFuncs_period num a = period_search num num a 1 (a mod num)"

text \<open>
  \<open>guessFactor ** (period / 2)\<close> for an even period. Both operands become floats and the
  power is the \<open>pow\<close> of the C library, which is accurate to less than one unit in the last
  place but not correctly rounded. A power that is a double is returned as it is. Any
  other is rounded to the nearer of the two doubles around it, unless it lies within a
  sixteenth of their distance from the middle between them: there the library may return
  either: \<open>up\<close>, given the two operands, says which. \<open>OverflowError\<close> is raised when
  an operand or the result has no double.
\<close>

definition pow_round :: "bool \<Rightarrow> nat \<Rightarrow> nat" where
  "pow_round up n =
     (if bits n \<le> 53 then n
      else
        (let e = bits n - 53; q = n div 2 ^ e; r = n mod 2 ^ e; half = 2 ^ (e - 1)
         in if r = 0 then n
            else if 16 * (if r < half then half - r else r - half) \<le> 2 ^ e
              then (if up then q + 1 else q) * 2 ^ e
            else (if half < r then q + 1 else q) * 2 ^ e))"

definition float_pow :: "(nat \<Rightarrow> nat \<Rightarrow> bool) \<Rightarrow> nat \<Rightarrow> nat \<Rightarrow> error + nat" where
  "float_pow up guessFactor period =
     bind_err (to_float (period div 2)) (\<lambda>half_period.
     bind_err (to_float guessFactor) (\<lambda>base.
       if float_bound \<le> pow_round (up base half_period) (base ^ half_period)
       then Inl OverflowError
       else Inr (pow_round (up base half_period) (base ^ half_period))))"

text \<open>The end of every path: \<open>while 1 in factorization: factorization.remove(1)\<close> and
  \<open>return sorted(factorization)\<close>.\<close>

definition finish :: "nat list \<Rightarrow> nat list" where
  "finish factorization = sort (filter (\<lambda>f. f \<noteq> 1) factorization)"

text \<open>The two stripping loops \<open>while num % p == 0: factorization.append(p); num /= p\<close>,
  for \<open>p = 2\<close> and \<open>p = 5\<close>. They are outside every \<open>try\<close>: an error of the division leaves
  the call. A loop that does not end has no result.\<close>

partial_function (option) strip_factor ::
    "nat \<Rightarrow> nat list \<Rightarrow> number \<Rightarrow> (error + nat list \<times> number) option" where
  "strip_factor p factorization num =
     (if val num mod p = 0 then
        (case truediv num p of
           Inl e \<Rightarrow> Some (Inl e)
         | Inr num' \<Rightarrow> strip_factor p (factorization @ [p]) num')
      else Some (Inr (factorization, num)))"

text \<open>What one pass of the main loop does: it returns, goes on to the next pass with a
  new state, or lets an exception out.\<close>

datatype outcome = Return "nat list" | Continue "nat list" number | Raise error

text \<open>\<open>except OverflowError\<close> around the body of a pass: the pass ends and the loop goes on
  with the factors and the cofactor as they are at that moment; any other exception
  leaves the call.\<close>

definition caught :: "error \<Rightarrow> nat list \<Rightarrow> number \<Rightarrow> outcome" where
  "caught e factorization num =
     (if e = OverflowError then Continue factorization num else Raise e)"

text \<open>The end of the factor extraction: \<open>if quick_compute: ... return\<close>, else the next
  pass.\<close>

definition conclude :: "bool \<Rightarrow> nat list \<Rightarrow> number \<Rightarrow> outcome" where
  "conclude quick_compute factorization num =
     (if quick_compute then Return (finish (factorization @ [val num]))
      else Continue factorization num)"

text \<open>The factor extraction, once both tests have passed: \<open>a\<close> is
  \<open>int(guessFactor ** (period / 2) + 1)\<close> and \<open>b\<close> is \<open>int(guessFactor ** (period / 2) - 1)\<close>.
  The first two factors are appended before \<open>num\<close> changes; every later greatest common
  divisor is taken with the cofactor of that moment.\<close>

definition extract_factors ::
    "bool \<Rightarrow> nat \<Rightarrow> nat \<Rightarrow> nat \<Rightarrow> nat \<Rightarrow> nat list \<Rightarrow> number \<Rightarrow> outcome" where
  "extract_factors quick_compute guessFactor period a b factorization num =
     (let factorization1 = factorization @ [py_gcd a (val num), py_gcd b (val num)] in
      case truediv num (py_gcd a (val num)) of
        Inl e \<Rightarrow> caught e factorization1 num
      | Inr num1 \<Rightarrow>
          (case truediv num1 (py_gcd b (val num1)) of
             Inl e \<Rightarrow> caught e factorization1 num1
           | Inr num2 \<Rightarrow>
               if period = 2 then
                 (let factorization2 = factorization1 @ [py_gcd guessFactor (val num2)] in
                  case truediv num2 (py_gcd guessFactor (val num2)) of
                    Inl e \<Rightarrow> caught e factorization2 num2
                  | Inr num3 \<Rightarrow>
                      (let factorization3 = factorization2 @ [py_gcd guessFactor (val num3)] in
                       case truediv num3 (py_gcd guessFactor (val num3)) of
                         Inl e \<Rightarrow> caught e factorization3 num3
                       | Inr num4 \<Rightarrow> conclude quick_compute factorization3 num4))
               else conclude quick_compute factorization1 num2))"

text \<open>The test \<open>(guessFactor ** (period / 2) + 1) % num != 0 and
  (guessFactor ** (period / 2) - 1) % num != 0\<close>. The power is at least 1, so \<open>x - 1\<close> is the
  subtraction of the source; \<open>x + 1\<close> and \<open>x - 1\<close> are float operations and round. The result
  is the two numbers \<open>a\<close> and \<open>b\<close> of the extraction when the test holds.\<close>

definition power_test :: "(nat \<Rightarrow> nat \<Rightarrow> bool) \<Rightarrow> nat \<Rightarrow> nat \<Rightarrow> number \<Rightarrow> error + (nat \<times> nat) option" where
  "power_test up guessFactor period num =
     bind_err (float_pow up guessFactor period) (\<lambda>x.
     bind_err (float_mod (fl (x + 1)) num) (\<lambda>ra.
       if ra \<noteq> 0 then
         bind_err (float_mod (fl (x - 1)) num) (\<lambda>rb.
           if rb \<noteq> 0 then Inr (Some (fl (x + 1), fl (x - 1))) else Inr None)
       else Inr None))"

text \<open>One pass. The first two tests and the perfect-square branch are outside the
  \<open>try\<close>; the \<open>ValueError\<close> of \<open>randint\<close> and of \<open>func\<close> have handlers of their own.\<close>

definition body :: "period_fn \<Rightarrow> (nat \<Rightarrow> nat \<Rightarrow> bool) \<Rightarrow> bool \<Rightarrow> nat \<Rightarrow> nat list \<Rightarrow> number \<Rightarrow> outcome" where
  "body func up quick_compute r factorization num =
     (if val num = 1 then Return (finish (factorization @ [val num]))
      else if (isqrt (val num)) ^ 2 = val num then
        (case int_np_sqrt num of
           Inl e \<Rightarrow> Raise e
         | Inr side \<Rightarrow>
             (case truediv num (side ^ 2) of
                Inl e \<Rightarrow> Raise e
              | Inr num' \<Rightarrow> Return (finish (factorization @ [side, side, val num']))))
      else
        (case randint r 3 (int (val num) - 1) of
           Inl e \<Rightarrow> if e = ValueError then Continue factorization num else Raise e
         | Inr g \<Rightarrow>
             (let guessFactor = nat g in
              if guessFactor \<noteq> val num then
                (case int_mod guessFactor num of
                   Inl e \<Rightarrow> caught e factorization num
                 | Inr m \<Rightarrow>
                     if m \<noteq> 0 then
                       (case func (val num) guessFactor of
                          Inl e \<Rightarrow>
                            if e = ValueError then Continue factorization num
                            else caught e factorization num
                        | Inr period \<Rightarrow>
                            if period mod 2 \<noteq> 1 then
                              (case power_test up guessFactor period num of
                                 Inl e \<Rightarrow> caught e factorization num
                               | Inr None \<Rightarrow> Continue factorization num
                               | Inr (Some (a, b)) \<Rightarrow>
                                   extract_factors quick_compute guessFactor period a b
                                     factorization num)
                            else Continue factorization num)
                     else Continue factorization num)
              else Continue factorization num)))"

text \<open>\<open>for i in range(limit)\<close>, with the passes that remain and the index \<open>i\<close> of the pass,
  which draws \<open>rnd i\<close>; after the last pass the cofactor is appended.\<close>

fun main_loop ::
    "period_fn \<Rightarrow> (nat \<Rightarrow> nat \<Rightarrow> bool) \<Rightarrow> bool \<Rightarrow> (nat \<Rightarrow> nat) \<Rightarrow> nat \<Rightarrow> nat \<Rightarrow> nat list \<Rightarrow> number
      \<Rightarrow> error + nat list" where
  "main_loop func up quick_compute rnd 0 i factorization num =
     Inr (finish (factorization @ [val num]))"
| "main_loop func up quick_compute rnd (Suc remaining) i factorization num =
     (case body func up quick_compute (rnd i) factorization num of
        Return fs \<Rightarrow> Inr fs
      | Raise e \<Rightarrow> Inl e
      | Continue factorization' num' \<Rightarrow>
          main_loop func up quick_compute rnd remaining (Suc i) factorization' num')"

text \<open>The number of passes the loop makes.\<close>

fun passes ::
    "period_fn \<Rightarrow> (nat \<Rightarrow> nat \<Rightarrow> bool) \<Rightarrow> bool \<Rightarrow> (nat \<Rightarrow> nat) \<Rightarrow> nat \<Rightarrow> nat \<Rightarrow> nat list \<Rightarrow> number
      \<Rightarrow> nat" where
  "passes func up quick_compute rnd 0 i factorization num = 0"
| "passes func up quick_compute rnd (Suc remaining) i factorization num =
     (case body func up quick_compute (rnd i) factorization num of
        Return fs \<Rightarrow> 1
      | Raise e \<Rightarrow> 1
      | Continue factorization' num' \<Rightarrow>
          Suc (passes func up quick_compute rnd remaining (Suc i) factorization' num'))"

text \<open>The state after \<open>k\<close> passes when none of them returned or raised: the loop is then
  exhausted after \<open>k = limit\<close> passes.\<close>

fun state_after ::
    "period_fn \<Rightarrow> (nat \<Rightarrow> nat \<Rightarrow> bool) \<Rightarrow> bool \<Rightarrow> (nat \<Rightarrow> nat) \<Rightarrow> nat \<Rightarrow> nat \<Rightarrow> nat list \<Rightarrow> number
      \<Rightarrow> (nat list \<times> number) option" where
  "state_after func up quick_compute rnd 0 i factorization num = Some (factorization, num)"
| "state_after func up quick_compute rnd (Suc remaining) i factorization num =
     (case body func up quick_compute (rnd i) factorization num of
        Return fs \<Rightarrow> None
      | Raise e \<Rightarrow> None
      | Continue factorization' num' \<Rightarrow>
          state_after func up quick_compute rnd remaining (Suc i) factorization' num')"

text \<open>The whole call: \<open>None\<close> when it does not end, the exception that leaves it, or the
  list it returns.\<close>

definition ShorFactoringAlgorithmClassical ::
    "nat \<Rightarrow> nat \<Rightarrow> period_fn \<Rightarrow> bool \<Rightarrow> (nat \<Rightarrow> nat) \<Rightarrow> (nat \<Rightarrow> nat \<Rightarrow> bool)
      \<Rightarrow> (error + nat list) option" where
  "ShorFactoringAlgorithmClassical num limit func quick_compute rnd up =
     (case strip_factor 2 [] (IntN num) of
        None \<Rightarrow> None
      | Some (Inl e) \<Rightarrow> Some (Inl e)
      | Some (Inr (factorization2, num2)) \<Rightarrow>
          (case strip_factor 5 factorization2 num2 of
             None \<Rightarrow> None
           | Some (Inl e) \<Rightarrow> Some (Inl e)
           | Some (Inr (factorization5, num5)) \<Rightarrow>
               Some (main_loop func up quick_compute rnd limit 0 factorization5 num5)))"

section \<open>Shapes and entries\<close>

text \<open>An array of shape \<open>(r, c)\<close>, and the array with given entries.\<close>

definition dims :: "nat \<Rightarrow> nat \<Rightarrow> matrix \<Rightarrow> bool" where
  "dims r c A = (length A = r \<and> (\<forall>row \<in> set A. length row = c))"

definition mat :: "nat \<Rightarrow> nat \<Rightarrow> (nat \<Rightarrow> nat \<Rightarrow> complex) \<Rightarrow> matrix" where
  "mat r c f = map (\<lambda>i. map (f i) [0..<c]) [0..<r]"

text \<open>The entries of the two single-qubit projectors.\<close>

definition proj0 :: "nat \<Rightarrow> nat \<Rightarrow> complex" where
  "proj0 i j = (if i = 0 \<and> j = 0 then 1 else 0)"

definition proj1 :: "nat \<Rightarrow> nat \<Rightarrow> complex" where
  "proj1 i j = (if i = 1 \<and> j = 1 then 1 else 0)"

section \<open>Properties of the basis vectors\<close>

lemmas vec_defs = zero_bra_def one_bra_def zero_ket_def one_ket_def plus_bra_def minus_bra_def
  plus_ket_def minus_ket_def madd_def msub_def sdiv_def smul_def kron_def kron_row_def

lemmas get_defs = get_bra_def get_ket_def bind_err_def int_block_def string_part_def
  or_default_def get_bra_string_def get_ket_string_def symbol_bra_def symbol_ket_def

lemma replicate_numeral: "replicate (numeral k) x = x # replicate (pred_numeral k) x"
  by (simp add: numeral_eq_Suc)

lemma get_ket_0: "get_ket [IntArg 0] [] = Inr zero_ket"
  by (simp add: get_defs)

lemma get_ket_1: "get_ket [IntArg 1] [] = Inr one_ket"
  by (simp add: get_defs)

lemma get_bra_0: "get_bra [IntArg 0] [] = Inr zero_bra"
  by (simp add: get_defs)

lemma get_bra_1: "get_bra [IntArg 1] [] = Inr one_bra"
  by (simp add: get_defs)

lemma args_loop_append:
  "args_loop step (xs @ ys) acc = bind_err (args_loop step xs acc) (args_loop step ys)"
  by (induction xs arbitrary: acc) (auto simp: bind_err_def split: sum.splits)

lemma args_loop_bits_ket:
  "set xs \<subseteq> {0, 1} \<Longrightarrow>
   args_loop ket_arg (rev (map IntArg xs)) None =
     Inr (foldr (\<lambda>x. kron_acc (Some (if x = 0 then zero_ket else one_ket))) xs None)"
  by (induction xs) (auto simp: args_loop_append bind_err_def int_block_def)

lemma args_loop_bits_bra:
  "set xs \<subseteq> {0, 1} \<Longrightarrow>
   args_loop bra_arg (rev (map IntArg xs)) None =
     Inr (foldr (\<lambda>x. kron_acc (Some (if x = 0 then zero_bra else one_bra))) xs None)"
  by (induction xs) (auto simp: args_loop_append bind_err_def int_block_def)

lemma symbols_loop_Some:
  "symbols_loop prim s acc = Inr r \<Longrightarrow> s \<noteq> [] \<or> acc \<noteq> None \<Longrightarrow> r \<noteq> None"
proof (induction s arbitrary: acc)
  case Nil
  then show ?case by simp
next
  case (Cons q qs)
  from Cons.prems(1) obtain v where v: "prim q = Inr v"
    and rest: "symbols_loop prim qs (kron_acc (Some v) acc) = Inr r"
    by (auto split: sum.splits)
  have "kron_acc (Some v) acc \<noteq> None" by (cases acc) simp_all
  with Cons.IH[OF rest] show ?case by simp
qed

lemma string_part_block:
  assumes "s \<noteq> []" and "string_part prim s None = Inr tmp"
  shows "\<exists>S. tmp = Some S \<and> string_part prim s acc = Inr (kron_acc (Some S) acc)"
proof -
  from assms have loop: "symbols_loop prim s None = Inr tmp"
    by (auto simp: string_part_def split: sum.splits)
  with assms(1) have "tmp \<noteq> None" using symbols_loop_Some by blast
  then obtain S where S: "tmp = Some S" by auto
  have "string_part prim s acc = Inr (kron_acc (Some S) acc)"
    using assms(1) loop S by (cases acc) (simp_all add: string_part_def)
  with S show ?thesis by blast
qed

lemma get_ket_block:
  assumes "s \<noteq> []" and "get_ket [] s = Inr S"
  shows "string_part symbol_ket s acc = Inr (kron_acc (Some S) acc)"
proof -
  from assms(2) obtain tmp where tmp: "string_part symbol_ket s None = Inr tmp"
    and S: "or_default zero_ket tmp = S"
    by (auto simp: get_ket_def bind_err_def split: sum.splits)
  from string_part_block[OF assms(1) tmp, of acc] S show ?thesis
    by (auto simp: or_default_def)
qed

lemma get_bra_block:
  assumes "s \<noteq> []" and "get_bra [] s = Inr S"
  shows "string_part symbol_bra s acc = Inr (kron_acc (Some S) acc)"
proof -
  from assms(2) obtain tmp where tmp: "string_part symbol_bra s None = Inr tmp"
    and S: "or_default zero_bra tmp = S"
    by (auto simp: get_bra_def bind_err_def split: sum.splits)
  from string_part_block[OF assms(1) tmp, of acc] S show ?thesis
    by (auto simp: or_default_def)
qed

text \<open>
  C1, as the code has it. The loop runs over \<open>args[::-1]\<close> and tensors every argument on
  the left of what is there, so the first positional argument is the leftmost, most
  significant Kronecker factor: for bits \<open>x\<close>, \<open>y\<close>, \<open>get_ket(x, y)\<close> is
  \<open>primitive(x) \<otimes> primitive(y)\<close>, and so for \<open>get_bra\<close> and for any number of bits. A
  non-empty \<open>qubit_string\<close> is combined as one block, which is tensored on the left of
  the block of the positional arguments.
\<close>

theorem get_ket_first_argument_most_significant:
  assumes "set xs \<subseteq> {0, 1}" and "x \<in> {0, 1}" and "y \<in> {0, 1}"
  shows "get_ket [IntArg x, IntArg y] [] =
           Inr (kron (if x = 0 then zero_ket else one_ket) (if y = 0 then zero_ket else one_ket))
       \<and> get_bra [IntArg x, IntArg y] [] =
           Inr (kron (if x = 0 then zero_bra else one_bra) (if y = 0 then zero_bra else one_bra))
       \<and> get_ket (map IntArg xs) [] =
           Inr (or_default zero_ket
                  (foldr (\<lambda>x. kron_acc (Some (if x = 0 then zero_ket else one_ket))) xs None))
       \<and> get_bra (map IntArg xs) [] =
           Inr (or_default zero_bra
                  (foldr (\<lambda>x. kron_acc (Some (if x = 0 then zero_bra else one_bra))) xs None))
       \<and> (\<forall>s S. s \<noteq> [] \<and> get_ket [] s = Inr S \<longrightarrow>
            get_ket (map IntArg xs) s =
              Inr (or_default zero_ket (kron_acc (Some S)
                  (foldr (\<lambda>x. kron_acc (Some (if x = 0 then zero_ket else one_ket))) xs None))))
       \<and> (\<forall>s S. s \<noteq> [] \<and> get_bra [] s = Inr S \<longrightarrow>
            get_bra (map IntArg xs) s =
              Inr (or_default zero_bra (kron_acc (Some S)
                  (foldr (\<lambda>x. kron_acc (Some (if x = 0 then zero_bra else one_bra))) xs None))))"
proof -
  have xy: "set [x, y] \<subseteq> {0, 1}" using assms(2,3) by simp
  have k2: "get_ket [IntArg x, IntArg y] [] =
      Inr (kron (if x = 0 then zero_ket else one_ket) (if y = 0 then zero_ket else one_ket))"
    using args_loop_bits_ket[OF xy]
    by (simp add: get_ket_def bind_err_def string_part_def or_default_def)
  have b2: "get_bra [IntArg x, IntArg y] [] =
      Inr (kron (if x = 0 then zero_bra else one_bra) (if y = 0 then zero_bra else one_bra))"
    using args_loop_bits_bra[OF xy]
    by (simp add: get_bra_def bind_err_def string_part_def or_default_def)
  have kn: "get_ket (map IntArg xs) [] = Inr (or_default zero_ket
      (foldr (\<lambda>x. kron_acc (Some (if x = 0 then zero_ket else one_ket))) xs None))"
    using args_loop_bits_ket[OF assms(1)]
    by (simp add: get_ket_def bind_err_def string_part_def)
  have bn: "get_bra (map IntArg xs) [] = Inr (or_default zero_bra
      (foldr (\<lambda>x. kron_acc (Some (if x = 0 then zero_bra else one_bra))) xs None))"
    using args_loop_bits_bra[OF assms(1)]
    by (simp add: get_bra_def bind_err_def string_part_def)
  have ks: "get_ket (map IntArg xs) s = Inr (or_default zero_ket (kron_acc (Some S)
      (foldr (\<lambda>x. kron_acc (Some (if x = 0 then zero_ket else one_ket))) xs None)))"
    if "s \<noteq> []" "get_ket [] s = Inr S" for s S
    using args_loop_bits_ket[OF assms(1)] get_ket_block[OF that]
    by (simp add: get_ket_def bind_err_def)
  have bs: "get_bra (map IntArg xs) s = Inr (or_default zero_bra (kron_acc (Some S)
      (foldr (\<lambda>x. kron_acc (Some (if x = 0 then zero_bra else one_bra))) xs None)))"
    if "s \<noteq> []" "get_bra [] s = Inr S" for s S
    using args_loop_bits_bra[OF assms(1)] get_bra_block[OF that]
    by (simp add: get_bra_def bind_err_def)
  from k2 b2 kn bn ks bs show ?thesis by blast
qed

theorem get_ket_first_argument_most_significant_witness:
  "get_ket [IntArg 0, IntArg 1] [] = Inr [[0], [1], [0], [0]]
   \<and> get_bra [IntArg 0, IntArg 1] [] = Inr [[0, 1, 0, 0]]
   \<and> get_ket [IntArg 1, IntArg 0, IntArg 0] [] = Inr [[0], [0], [0], [0], [1], [0], [0], [0]]
   \<and> get_ket [IntArg 1, IntArg 0, IntArg 0] ''01'' =
        Inr (kron [[0], [0], [1], [0]] [[0], [0], [0], [0], [1], [0], [0], [0]])"
proof -
  have s: "set [1, 0, 0 :: int] \<subseteq> {0, 1}" "(0::int) \<in> {0, 1}" "(1::int) \<in> {0, 1}"
    by simp_all
  have str: "''01'' \<noteq> [] \<and> get_ket [] ''01'' = Inr [[0], [0], [1], [0]]"
    by (simp add: get_defs vec_defs)
  from get_ket_first_argument_most_significant[OF s] str show ?thesis
    by (simp add: or_default_def vec_defs)
qed

text \<open>
  C1 as the spec states it fails: \<open>get_ket(0, 1)\<close> is not
  \<open>primitive(1) \<otimes> primitive(0)\<close>, the last argument is not the most significant factor.
\<close>

theorem get_ket_last_argument_counterexample:
  "get_ket [IntArg 0, IntArg 1] [] \<noteq> Inr (kron one_ket zero_ket)"
  by (simp add: get_defs vec_defs)

text \<open>The sizing loop on a power of two, and the write that follows it.\<close>

lemma count_qubits_pow2: "j \<le> k \<Longrightarrow> 1 \<le> j \<Longrightarrow> count_qubits j (2 ^ k) = k"
proof (induction "k - j" arbitrary: j)
  case 0
  then have "j = k" by simp
  then show ?case by (simp add: count_qubits.simps qubits_to_bits_def)
next
  case (Suc d)
  then have lt: "j < k" by simp
  then have "(2::int) ^ j < 2 ^ k" by simp
  moreover have "count_qubits (j + 1) (2 ^ k) = k" using Suc lt by simp
  ultimately show ?case
    by (subst count_qubits.simps) (simp add: qubits_to_bits_def)
qed

lemma get_qubit_vector_pow2: "get_qubit_vector k [2 ^ k] = Inl IndexError"
proof -
  have "set_ones row [int (length row)] = Inl IndexError" for row
    by (simp add: py_index_def)
  from this[of "replicate (2 ^ k) 0"] show ?thesis
    by (simp add: get_qubit_vector_def qubits_to_bits_def)
qed

lemma power_of_two_raises:
  assumes "1 \<le> k"
  shows "get_ket [IntArg (2 ^ k)] [] = Inl IndexError"
    and "get_bra [IntArg (2 ^ k)] [] = Inl IndexError"
proof -
  from assms have "(2::int) ^ k > 1"
    by (metis less_eq_Suc_le one_less_numeral_iff one_less_power semiring_norm(76) One_nat_def)
  then have ne: "(2::int) ^ k \<noteq> 0" "(2::int) ^ k \<noteq> 1" by simp_all
  show "get_ket [IntArg (2 ^ k)] [] = Inl IndexError"
    using count_qubits_pow2[of 1 k] get_qubit_vector_pow2[of k] assms ne
    by (simp add: get_ket_def bind_err_def int_block_def)
  show "get_bra [IntArg (2 ^ k)] [] = Inl IndexError"
    using count_qubits_pow2[of 1 k] get_qubit_vector_pow2[of k] assms ne
    by (simp add: get_bra_def bind_err_def int_block_def)
qed

text \<open>
  C2 fails on the code. The loop \<open>while qubits_to_bits(num_qubits) < argv\<close> stops at
  \<open>2 ** num_qubits = argv\<close>, so for a power of two the vector has \<open>argv\<close> entries and the
  write at index \<open>argv\<close> raises \<open>IndexError\<close>: \<open>get_ket(2)\<close>, \<open>get_ket(4)\<close>, \<open>get_bra(2)\<close>
  and \<open>get_bra(4)\<close> raise. A value that is not a power of two, such as 3, gives the basis
  vector of the claim.
\<close>

theorem get_ket_power_of_two_raises:
  "get_ket [IntArg 2] [] = Inl IndexError \<and> get_ket [IntArg 4] [] = Inl IndexError
   \<and> get_bra [IntArg 2] [] = Inl IndexError \<and> get_bra [IntArg 4] [] = Inl IndexError
   \<and> get_ket [IntArg 3] [] = Inr [[0], [0], [0], [1]]"
  using power_of_two_raises[of 1] power_of_two_raises[of 2]
  by (simp add: get_defs count_qubits.simps qubits_to_bits_def get_qubit_vector_def
      py_index_def replicate_numeral)

section \<open>Properties of the gates\<close>

lemma Pauli_X_Gate_eq: "Pauli_X_Gate = Inr Pauli_X_gate"
  by (simp add: Pauli_X_Gate_def Pauli_X_gate_def get_ket_0 get_ket_1 get_bra_0 get_bra_1
      bind_err_def vec_defs)

text \<open>
  C7: every outer-product gate constructor returns, without raising, the fixed constant
  of the same gate.
\<close>

theorem outer_product_gates_agree_with_constants:
  "Pauli_X_Gate = Inr Pauli_X_gate \<and> Pauli_Y_Gate = Inr Pauli_Y_gate
   \<and> Pauli_Z_Gate = Inr Pauli_Z_gate \<and> Hadamard_Gate = Inr Hadamard_gate
   \<and> CNOT_Gate = Inr CNOT_gate \<and> Swap_Gate = Inr swap_gate"
proof -
  have y: "Pauli_Y_Gate = Inr Pauli_Y_gate"
    by (simp add: Pauli_Y_Gate_def Pauli_Y_gate_def get_ket_0 get_ket_1 get_bra_0 get_bra_1
        bind_err_def vec_defs)
  have z: "Pauli_Z_Gate = Inr Pauli_Z_gate"
    by (simp add: Pauli_Z_Gate_def Pauli_Z_gate_def get_ket_0 get_ket_1 get_bra_0 get_bra_1
        bind_err_def vec_defs)
  have h: "Hadamard_Gate = Inr Hadamard_gate"
    by (simp add: Hadamard_Gate_def Hadamard_gate_def get_defs vec_defs)
  have c: "CNOT_Gate = Inr CNOT_gate"
    by (simp add: CNOT_Gate_def CNOT_gate_def CU_Gate_def Pauli_X_Gate_eq Pauli_X_gate_def
        one_qubit_identity_gate_def np_diag_def get_ket_0 get_ket_1 get_bra_0 get_bra_1
        bind_err_def vec_defs)
  have s: "Swap_Gate = Inr swap_gate"
    by (simp add: Swap_Gate_def swap_gate_def get_defs vec_defs)
  from Pauli_X_Gate_eq y z h c s show ?thesis by simp
qed

section \<open>Properties of Kronecker products\<close>

lemma upt_block: "[0..<Suc a * b] = [0..<a * b] @ map (\<lambda>k. k + a * b) [0..<b]"
proof -
  have "Suc a * b = a * b + b" by simp
  then have "[0..<Suc a * b] = [0..<a * b + b]" by (rule arg_cong)
  also have "\<dots> = [0..<a * b] @ [a * b..<a * b + b]"
    by (rule upt_add_eq_append) simp
  also have "[a * b..<a * b + b] = map (\<lambda>k. k + a * b) [0..<b]"
    by (simp only: map_add_upt add.commute[of b "a * b"])
  finally show ?thesis .
qed

lemma concat_map_upt:
  "concat (map (\<lambda>i. map (h i) [0..<b]) [0..<a]) = map (\<lambda>m. h (m div b) (m mod b)) [0..<a * b]"
proof (induction a)
  case 0
  then show ?case by simp
next
  case (Suc a)
  have "map (\<lambda>m. h (m div b) (m mod b)) (map (\<lambda>k. k + a * b) [0..<b]) = map (h a) [0..<b]"
    by (simp add: comp_def)
  then have "map (\<lambda>m. h (m div b) (m mod b)) [0..<Suc a * b]
      = map (\<lambda>m. h (m div b) (m mod b)) [0..<a * b] @ map (h a) [0..<b]"
    by (simp only: upt_block map_append)
  moreover have "concat (map (\<lambda>i. map (h i) [0..<b]) [0..<Suc a])
      = concat (map (\<lambda>i. map (h i) [0..<b]) [0..<a]) @ map (h a) [0..<b]"
    by simp
  ultimately show ?case using Suc by simp
qed

lemma kron_row_mat:
  "kron_row (map f [0..<c]) (map g [0..<c']) = map (\<lambda>m. f (m div c') * g (m mod c')) [0..<c * c']"
  using concat_map_upt[of "\<lambda>j l. f j * g l" c' c]
  by (simp add: kron_row_def comp_def)

lemma kron_mat:
  "kron (mat r c f) (mat r' c' g) =
     mat (r * r') (c * c') (\<lambda>i j. f (i div r') (j div c') * g (i mod r') (j mod c'))"
  using concat_map_upt[of "\<lambda>i k. map (\<lambda>m. f i (m div c') * g k (m mod c')) [0..<c * c']" r' r]
  by (simp add: kron_def mat_def comp_def kron_row_mat)

lemma madd_mat: "madd (mat r c f) (mat r c g) = mat r c (\<lambda>i j. f i j + g i j)"
  by (simp add: madd_def mat_def zip_map_map zip_same_conv_map comp_def)

lemma mat_cong: "(\<And>i j. i < r \<Longrightarrow> j < c \<Longrightarrow> f i j = g i j) \<Longrightarrow> mat r c f = mat r c g"
  by (simp add: mat_def)

lemma dims_mat: "dims r c A \<Longrightarrow> A = mat r c (\<lambda>i j. A ! i ! j)"
  by (auto simp: dims_def mat_def intro!: nth_equalityI)

lemma dims_mat_iff: "dims r c (mat r c f)"
  by (auto simp: dims_def mat_def)

lemma np_identity_mat: "np_identity n = mat n n (\<lambda>i j. if i = j then 1 else 0)"
  by (simp add: np_identity_def mat_def)

lemma upt2: "[0..<2] = [0, Suc 0]"
  by (simp add: numeral_2_eq_2)

lemma mat_proj0: "mat 2 2 proj0 = [[1, 0], [0, 0]]"
  by (simp add: mat_def upt2 proj0_def)

lemma mat_proj1: "mat 2 2 proj1 = [[0, 0], [0, 1]]"
  by (simp add: mat_def upt2 proj1_def)

lemma zero_prod_eq: "zero_prod = Inr (mat 2 2 proj0)"
  unfolding mat_proj0
  by (simp add: zero_prod_def get_ket_0 get_bra_0 bind_err_def vec_defs)

lemma one_prod_eq: "one_prod = Inr (mat 2 2 proj1)"
  unfolding mat_proj1
  by (simp add: one_prod_def get_ket_1 get_bra_1 bind_err_def vec_defs)

lemma proj_sum:
  assumes "a < 2" "b < 2"
  shows "x * (if a = b then 1 else 0) + y * proj0 a b + y * proj1 a b
       = (x + y) * (if a = b then (1::complex) else 0)"
proof -
  from assms have "a = 0 \<or> a = 1" "b = 0 \<or> b = 1" by auto
  then show ?thesis by (auto simp: proj0_def proj1_def algebra_simps)
qed

lemma step_sum:
  assumes A: "dims d d A" and Q: "dims d d q"
  shows "madd (madd (kron A (np_identity 2)) (kron q (mat 2 2 proj0))) (kron q (mat 2 2 proj1))
       = kron (madd A q) (np_identity 2)"
proof -
  obtain f where f: "A = mat d d f" using dims_mat[OF A] by blast
  obtain g where g: "q = mat d d g" using dims_mat[OF Q] by blast
  show ?thesis
    unfolding f g np_identity_mat kron_mat madd_mat
    by (rule mat_cong) (rule proj_sum, simp_all)
qed


lemma proj_sum0:
  assumes "a < 2" "b < 2"
  shows "y * proj0 a b + y * proj1 a b = y * (if a = b then (1::complex) else 0)"
  using proj_sum[OF assms, of 0 y] by simp

lemma first_sum:
  assumes Q: "dims d d q"
  shows "madd (kron q (mat 2 2 proj0)) (kron q (mat 2 2 proj1)) = kron q (np_identity 2)"
proof -
  obtain g where g: "q = mat d d g" using dims_mat[OF Q] by blast
  show ?thesis
    unfolding g np_identity_mat kron_mat madd_mat
    by (rule mat_cong) (rule proj_sum0, simp_all)
qed

lemma dims_kron:
  assumes "dims r c A" and "dims r' c' B"
  shows "dims (r * r') (c * c') (kron A B)"
proof -
  obtain f where f: "A = mat r c f" using dims_mat[OF assms(1)] by blast
  obtain g where g: "B = mat r' c' g" using dims_mat[OF assms(2)] by blast
  show ?thesis unfolding f g kron_mat by (rule dims_mat_iff)
qed

lemma dims_madd:
  assumes "dims r c A" and "dims r c B"
  shows "dims r c (madd A B)"
proof -
  obtain f where f: "A = mat r c f" using dims_mat[OF assms(1)] by blast
  obtain g where g: "B = mat r c g" using dims_mat[OF assms(2)] by blast
  show ?thesis unfolding f g madd_mat by (rule dims_mat_iff)
qed

lemma kron_identity: "kron (np_identity d) (np_identity 2) = np_identity (d * 2)"
proof -
  have "(i div 2 = j div 2 \<and> i mod 2 = j mod 2) = (i = j)" for i j :: nat
    by (metis div_mult_mod_eq)
  then have pt: "(if i div 2 = j div 2 then 1 else 0) * (if i mod 2 = j mod 2 then 1 else 0)
      = (if i = j then (1::complex) else 0)" for i j :: nat
    by (cases "i = j") auto
  show ?thesis
    unfolding np_identity_mat kron_mat by (rule mat_cong) (rule pt)
qed

lemma foldl_np_add:
  "foldl np_add (NdArray A) ms = NdArray (foldl madd A ms)"
  by (induction ms arbitrary: A) simp_all

lemma foldl_pairs:
  assumes "dims d d A" and "\<forall>q \<in> set qs. dims d d q"
  shows "foldl madd (kron A (np_identity 2))
           (concat (map (\<lambda>q. [kron q (mat 2 2 proj0), kron q (mat 2 2 proj1)]) qs))
       = kron (foldl madd A qs) (np_identity 2)"
  using assms
proof (induction qs arbitrary: A)
  case Nil
  then show ?case by simp
next
  case (Cons q qs)
  have q: "dims d d q" using Cons.prems(2) by simp
  have "dims d d (madd A q)" using Cons.prems(1) q by (rule dims_madd)
  from Cons.IH[OF this] Cons.prems(2) show ?case
    by (simp add: step_sum[OF Cons.prems(1) q])
qed

lemma dims_proj: "dims 2 2 (mat 2 2 f)"
  by (rule dims_mat_iff)

lemma add0_id: "map (map (\<lambda>a. of_int 0 + a)) (M::matrix) = M"
  by (simp add: map_idI)

lemma py_sum_Cons: "py_sum (q # qs) = NdArray (foldl madd q qs)"
  by (simp add: py_sum_def foldl_np_add map_idI)

lemma helper_inv:
  "\<exists>qs. identity_gate_helper (Suc n) = Inr qs \<and> qs \<noteq> []
     \<and> (\<forall>q \<in> set qs. dims (2 ^ Suc n) (2 ^ Suc n) q)
     \<and> py_sum qs = NdArray (np_identity (2 ^ Suc n))"
proof (induction n)
  case 0
  have "identity_gate_helper (Suc 0) = Inr [mat 2 2 proj0, mat 2 2 proj1]"
    by (simp add: zero_prod_eq one_prod_eq bind_err_def)
  moreover have "py_sum [mat 2 2 proj0, mat 2 2 proj1] = NdArray (np_identity 2)"
    by (simp add: py_sum_Cons mat_proj0 mat_proj1 madd_def np_identity_def upt2)
  moreover have "dims 2 2 (mat 2 2 proj0)" "dims 2 2 (mat 2 2 proj1)"
    by (rule dims_proj)+
  ultimately show ?case by simp
next
  case (Suc n)
  let ?d = "2 ^ Suc n :: nat"
  let ?g = "\<lambda>q. [kron q (mat 2 2 proj0), kron q (mat 2 2 proj1)]"
  from Suc obtain qs where qs: "identity_gate_helper (Suc n) = Inr qs" "qs \<noteq> []"
    and d: "\<forall>q \<in> set qs. dims ?d ?d q" and sum: "py_sum qs = NdArray (np_identity ?d)"
    by blast
  from qs(2) obtain q0 rest where split: "qs = q0 # rest" by (cases qs) auto
  have q0: "dims ?d ?d q0" and rest: "\<forall>q \<in> set rest. dims ?d ?d q"
    using d split by simp_all
  have id: "foldl madd q0 rest = np_identity ?d"
    using sum split by (simp add: py_sum_Cons)
  have h: "identity_gate_helper (Suc (Suc n)) = Inr (concat (map ?g qs))"
    by (simp add: zero_prod_eq one_prod_eq bind_err_def qs(1))
  have ne: "concat (map ?g qs) \<noteq> []" using split by simp
  have dm: "\<forall>q \<in> set (concat (map ?g qs)). dims (2 ^ Suc (Suc n)) (2 ^ Suc (Suc n)) q"
  proof
    fix m assume "m \<in> set (concat (map ?g qs))"
    then obtain q where "q \<in> set qs" and m: "m = kron q (mat 2 2 proj0) \<or> m = kron q (mat 2 2 proj1)"
      by auto
    then have "dims ?d ?d q" using d by blast
    from dims_kron[OF this dims_proj] m show "dims (2 ^ Suc (Suc n)) (2 ^ Suc (Suc n)) m"
      by (auto simp: mult.commute)
  qed
  have "py_sum (concat (map ?g qs))
      = NdArray (foldl madd (madd (kron q0 (mat 2 2 proj0)) (kron q0 (mat 2 2 proj1)))
                   (concat (map ?g rest)))"
    by (simp add: split py_sum_Cons)
  also have "\<dots> = NdArray (kron (foldl madd q0 rest) (np_identity 2))"
    by (simp only: first_sum[OF q0] foldl_pairs[OF q0 rest])
  also have "\<dots> = NdArray (np_identity (2 ^ Suc (Suc n)))"
    by (simp add: id kron_identity mult.commute)
  finally have "py_sum (concat (map ?g qs)) = NdArray (np_identity (2 ^ Suc (Suc n)))" .
  with h ne dm show ?case by blast
qed

text \<open>
  C8: for every \<open>numQubits \<ge> 1\<close>, \<open>identity_gate(numQubits)\<close> returns, without raising, the
  sum of the arrays of the recursive helper, and that sum is the identity matrix of
  \<open>identityGate(numQubits)\<close>, of size \<open>2 ** numQubits\<close>.
\<close>

theorem identity_gate_is_identityGate:
  assumes "1 \<le> numQubits"
  shows "identity_gate numQubits = Inr (NdArray (identityGate numQubits))"
proof -
  from assms obtain n where n: "numQubits = Suc n" by (cases numQubits) auto
  from helper_inv[of n] show ?thesis
    unfolding n by (auto simp: identity_gate_def identityGate_def qubits_to_bits_def bind_err_def)
qed

theorem identity_gate_is_identityGate_witness:
  "identity_gate 2 = Inr (NdArray [[1, 0, 0, 0], [0, 1, 0, 0], [0, 0, 1, 0], [0, 0, 0, 1]])"
  using identity_gate_is_identityGate[of 2]
  by (simp add: identityGate_def qubits_to_bits_def np_identity_def upt_rec)

section \<open>Properties of the generalised NOT gates\<close>

lemma np_diag2_mat: "np_diag [a, b] = mat 2 2 (\<lambda>i j. if i = j then [a, b] ! i else 0)"
  by (simp add: np_diag_def mat_def upt2)

lemma top_left_mat:
  "map (take d) (take d (mat (2 * d) (2 * d) h)) = mat d d h"
  by (simp add: mat_def take_map)

lemma upt_shift: "[d..<2 * d] = map (\<lambda>k. k + d) [0..<d]"
  by (simp add: map_add_upt mult_2)

lemma bottom_right_mat:
  "map (drop d) (drop d (mat (2 * d) (2 * d) h)) = mat d d (\<lambda>i j. h (i + d) (j + d))"
  by (simp add: mat_def drop_map upt_shift comp_def)

lemma controlled_blocks:
  fixes a b a' b' :: complex
  assumes P: "dims d d P" and Q: "dims d d Q"
  shows "map (take d) (take d (madd (kron (np_diag [a, b]) P) (kron (np_diag [a', b']) Q)))
           = mat d d (\<lambda>i j. a * P ! i ! j + a' * Q ! i ! j)"
    and "map (drop d) (drop d (madd (kron (np_diag [a, b]) P) (kron (np_diag [a', b']) Q)))
           = mat d d (\<lambda>i j. b * P ! i ! j + b' * Q ! i ! j)"
    and "dims (2 * d) (2 * d) (madd (kron (np_diag [a, b]) P) (kron (np_diag [a', b']) Q))"
proof -
  let ?G = "madd (kron (np_diag [a, b]) P) (kron (np_diag [a', b']) Q)"
  let ?h = "\<lambda>i j. (if i div d = j div d then [a, b] ! (i div d) else 0) * (P ! (i mod d) ! (j mod d))
      + (if i div d = j div d then [a', b'] ! (i div d) else 0) * (Q ! (i mod d) ! (j mod d))"
  have G: "?G = mat (2 * d) (2 * d) ?h"
    unfolding np_diag2_mat
    by (subst dims_mat[OF P], subst dims_mat[OF Q]) (simp only: kron_mat madd_mat)
  show "map (take d) (take d ?G) = mat d d (\<lambda>i j. a * P ! i ! j + a' * Q ! i ! j)"
    unfolding G top_left_mat by (rule mat_cong) simp
  show "map (drop d) (drop d ?G) = mat d d (\<lambda>i j. b * P ! i ! j + b' * Q ! i ! j)"
    unfolding G bottom_right_mat by (rule mat_cong) simp
  show "dims (2 * d) (2 * d) ?G" unfolding G by (rule dims_mat_iff)
qed

lemma forward_blocks:
  assumes P: "dims d d P" and Q: "dims d d Q"
  shows "map (take d) (take d (madd (kron (np_diag [1, 0]) P) (kron (np_diag [0, 1]) Q))) = P"
    and "map (drop d) (drop d (madd (kron (np_diag [1, 0]) P) (kron (np_diag [0, 1]) Q))) = Q"
proof -
  have "map (take d) (take d (madd (kron (np_diag [1, 0]) P) (kron (np_diag [0, 1]) Q)))
      = mat d d (\<lambda>i j. P ! i ! j)"
    by (simp add: controlled_blocks(1)[OF P Q])
  then show "map (take d) (take d (madd (kron (np_diag [1, 0]) P) (kron (np_diag [0, 1]) Q))) = P"
    using dims_mat[OF P] by simp
  have "map (drop d) (drop d (madd (kron (np_diag [1, 0]) P) (kron (np_diag [0, 1]) Q)))
      = mat d d (\<lambda>i j. Q ! i ! j)"
    by (simp add: controlled_blocks(2)[OF P Q])
  then show "map (drop d) (drop d (madd (kron (np_diag [1, 0]) P) (kron (np_diag [0, 1]) Q))) = Q"
    using dims_mat[OF Q] by simp
qed

lemma reverse_blocks:
  assumes P: "dims d d P" and Q: "dims d d Q"
  shows "map (take d) (take d (madd (kron (np_diag [0, 1]) P) (kron (np_diag [1, 0]) Q))) = Q"
proof -
  have "map (take d) (take d (madd (kron (np_diag [0, 1]) P) (kron (np_diag [1, 0]) Q)))
      = mat d d (\<lambda>i j. Q ! i ! j)"
    by (simp add: controlled_blocks(1)[OF P Q])
  then show ?thesis using dims_mat[OF Q] by simp
qed

lemma dims_np_identity: "dims n n (np_identity n)"
  unfolding np_identity_mat by (rule dims_mat_iff)

lemma dims_Pauli_X_gate: "dims 2 2 Pauli_X_gate"
  by (simp add: dims_def Pauli_X_gate_def)

lemma quantum_not_gate_matrix_1: "quantum_not_gate_matrix (Suc 0) = Pauli_X_gate"
  by (simp add: quantum_not_gate_matrix.simps)

lemma one_qubit_identity_gate_eq: "one_qubit_identity_gate = np_identity 2"
  by (simp add: one_qubit_identity_gate_def np_identity_def upt2)

lemma quantum_not_gate_matrix_rec:
  assumes "2 \<le> n"
  shows "quantum_not_gate_matrix n =
     madd (kron (np_diag [1, 0]) (np_identity (2 ^ (n - 1))))
          (kron (np_diag [0, 1]) (quantum_not_gate_matrix (n - 1)))"
proof (cases "n = 2")
  case True
  then show ?thesis
    by (subst quantum_not_gate_matrix.simps)
       (simp add: CNOT_gate_def one_qubit_identity_gate_eq quantum_not_gate_matrix_1)
next
  case False
  with assms show ?thesis
    by (subst quantum_not_gate_matrix.simps) (simp add: identityGate_def qubits_to_bits_def)
qed

lemma reverse_quantum_not_gate_matrix_rec:
  assumes "2 \<le> n"
  shows "reverse_quantum_not_gate_matrix n =
     madd (kron (np_diag [0, 1]) (np_identity (2 ^ (n - 1))))
          (kron (np_diag [1, 0]) (quantum_not_gate_matrix (n - 1)))"
  using assms
  by (auto simp: reverse_quantum_not_gate_matrix_def identityGate_def qubits_to_bits_def
      quantum_not_gate_matrix_1)

lemma dims_quantum_not_gate_matrix:
  "dims (2 ^ Suc n) (2 ^ Suc n) (quantum_not_gate_matrix (Suc n))"
proof (induction n)
  case 0
  then show ?case using dims_Pauli_X_gate by (simp add: quantum_not_gate_matrix_1)
next
  case (Suc n)
  have "2 \<le> Suc (Suc n)" by simp
  from quantum_not_gate_matrix_rec[OF this]
    controlled_blocks(3)[OF dims_np_identity Suc]
  show ?case by simp
qed

lemma bottom_right_identity: "map (drop d) (drop d (np_identity (2 * d))) = np_identity d"
  unfolding np_identity_mat bottom_right_mat by (rule mat_cong) simp

lemma quantum_not_gate_matrix_not_identity:
  "quantum_not_gate_matrix (Suc n) \<noteq> np_identity (2 ^ Suc n)"
proof (induction n)
  case 0
  then show ?case
    by (simp add: quantum_not_gate_matrix_1 Pauli_X_gate_def np_identity_def upt2)
next
  case (Suc n)
  let ?d = "2 ^ Suc n :: nat"
  have rec: "quantum_not_gate_matrix (Suc (Suc n)) =
     madd (kron (np_diag [1, 0]) (np_identity ?d))
          (kron (np_diag [0, 1]) (quantum_not_gate_matrix (Suc n)))"
    using quantum_not_gate_matrix_rec[of "Suc (Suc n)"] by simp
  have br: "map (drop ?d) (drop ?d (quantum_not_gate_matrix (Suc (Suc n))))
      = quantum_not_gate_matrix (Suc n)"
    unfolding rec by (rule forward_blocks(2)[OF dims_np_identity dims_quantum_not_gate_matrix])
  show ?case
  proof
    assume "quantum_not_gate_matrix (Suc (Suc n)) = np_identity (2 ^ Suc (Suc n))"
    then have "map (drop ?d) (drop ?d (quantum_not_gate_matrix (Suc (Suc n))))
        = map (drop ?d) (drop ?d (np_identity (2 * ?d)))" by simp
    then have "quantum_not_gate_matrix (Suc n) = np_identity ?d"
      unfolding br bottom_right_identity .
    with Suc show False by simp
  qed
qed

lemma forward_differs_from_reverse:
  "quantum_not_gate_matrix (Suc (Suc n)) \<noteq> reverse_quantum_not_gate_matrix (Suc (Suc n))"
proof
  let ?d = "2 ^ Suc n :: nat"
  let ?q = "quantum_not_gate_matrix (Suc n)"
  assume eq: "quantum_not_gate_matrix (Suc (Suc n)) = reverse_quantum_not_gate_matrix (Suc (Suc n))"
  have f: "quantum_not_gate_matrix (Suc (Suc n)) =
      madd (kron (np_diag [1, 0]) (np_identity ?d)) (kron (np_diag [0, 1]) ?q)"
    using quantum_not_gate_matrix_rec[of "Suc (Suc n)"] by simp
  have r: "reverse_quantum_not_gate_matrix (Suc (Suc n)) =
      madd (kron (np_diag [0, 1]) (np_identity ?d)) (kron (np_diag [1, 0]) ?q)"
    using reverse_quantum_not_gate_matrix_rec[of "Suc (Suc n)"] by simp
  have "map (take ?d) (take ?d (quantum_not_gate_matrix (Suc (Suc n)))) = np_identity ?d"
    unfolding f by (rule forward_blocks(1)[OF dims_np_identity dims_quantum_not_gate_matrix])
  moreover have "map (take ?d) (take ?d (reverse_quantum_not_gate_matrix (Suc (Suc n)))) = ?q"
    unfolding r by (rule reverse_blocks[OF dims_np_identity dims_quantum_not_gate_matrix])
  ultimately have "?q = np_identity ?d" using eq by simp
  with quantum_not_gate_matrix_not_identity[of n] show False by simp
qed

lemma dims_reverse:
  "dims (2 ^ Suc (Suc n)) (2 ^ Suc (Suc n)) (reverse_quantum_not_gate_matrix (Suc (Suc n)))"
proof -
  have "2 \<le> Suc (Suc n)" by simp
  from reverse_quantum_not_gate_matrix_rec[OF this]
    controlled_blocks(3)[OF dims_np_identity dims_quantum_not_gate_matrix]
  show ?thesis by simp
qed

text \<open>
  C9: from three qubits on, \<open>reverse_quantum_not_gate_matrix(numQubits)\<close> is
  \<open>diag(0,1) \<otimes> I + diag(1,0) \<otimes> quantum_not_gate_matrix(numQubits - 1)\<close>, with the
  identity of size \<open>2 ** (numQubits - 1)\<close>: the controlled block is the forward gate of
  \<open>numQubits - 1\<close> qubits. Putting the reverse gate of \<open>numQubits - 1\<close> qubits there gives a
  different matrix, so the gate is not the mirror of the forward gate below its outermost
  control.
\<close>

theorem reverse_quantum_not_gate_matrix_embeds_forward_gate:
  assumes "3 \<le> numQubits"
  shows "reverse_quantum_not_gate_matrix numQubits =
           madd (kron (np_diag [0, 1]) (np_identity (2 ^ (numQubits - 1))))
                (kron (np_diag [1, 0]) (quantum_not_gate_matrix (numQubits - 1)))
       \<and> reverse_quantum_not_gate_matrix numQubits \<noteq>
           madd (kron (np_diag [0, 1]) (np_identity (2 ^ (numQubits - 1))))
                (kron (np_diag [1, 0]) (reverse_quantum_not_gate_matrix (numQubits - 1)))"
proof -
  from assms obtain n where n: "numQubits = Suc (Suc (Suc n))"
    by (metis Suc_le_D numeral_3_eq_3 Suc_le_mono)
  let ?d = "2 ^ Suc (Suc n) :: nat"
  let ?F = "\<lambda>M. madd (kron (np_diag [0, 1]) (np_identity ?d)) (kron (np_diag [1, 0]) M)"
  have rec: "reverse_quantum_not_gate_matrix numQubits = ?F (quantum_not_gate_matrix (Suc (Suc n)))"
    using reverse_quantum_not_gate_matrix_rec[of numQubits] n by simp
  have tl: "map (take ?d) (take ?d (?F M)) = M" if "dims ?d ?d M" for M
    by (rule reverse_blocks[OF dims_np_identity that])
  have "?F (quantum_not_gate_matrix (Suc (Suc n))) \<noteq> ?F (reverse_quantum_not_gate_matrix (Suc (Suc n)))"
  proof
    assume "?F (quantum_not_gate_matrix (Suc (Suc n))) = ?F (reverse_quantum_not_gate_matrix (Suc (Suc n)))"
    then have "map (take ?d) (take ?d (?F (quantum_not_gate_matrix (Suc (Suc n)))))
        = map (take ?d) (take ?d (?F (reverse_quantum_not_gate_matrix (Suc (Suc n)))))" by simp
    then have "quantum_not_gate_matrix (Suc (Suc n)) = reverse_quantum_not_gate_matrix (Suc (Suc n))"
      unfolding tl[OF dims_quantum_not_gate_matrix] tl[OF dims_reverse] .
    with forward_differs_from_reverse show False by blast
  qed
  with rec show ?thesis unfolding n by simp
qed

theorem reverse_quantum_not_gate_matrix_embeds_forward_gate_witness:
  "reverse_quantum_not_gate_matrix 3 =
     madd (kron (np_diag [0, 1]) (np_identity 4)) (kron (np_diag [1, 0]) CNOT_gate)
   \<and> reverse_quantum_not_gate_matrix 3 \<noteq>
     madd (kron (np_diag [0, 1]) (np_identity 4))
          (kron (np_diag [1, 0]) (reverse_quantum_not_gate_matrix 2))"
proof -
  have le: "(3::nat) \<le> 3" by simp
  have e: "(3::nat) - 1 = 2" "(2::nat) ^ 2 = 4" by simp_all
  have q: "quantum_not_gate_matrix 2 = CNOT_gate"
    by (simp add: quantum_not_gate_matrix.simps)
  from reverse_quantum_not_gate_matrix_embeds_forward_gate[OF le] show ?thesis
    unfolding e q .
qed

section \<open>Properties of the factorization loop\<close>

lemma bits_le: "n < 2 ^ k \<Longrightarrow> bits n \<le> k"
proof (induction k arbitrary: n)
  case 0
  then show ?case by (simp add: bits.simps)
next
  case (Suc k)
  show ?case
  proof (cases "n = 0")
    case True
    then show ?thesis by (simp add: bits.simps)
  next
    case False
    from Suc.prems have "n div 2 < 2 ^ k" by simp
    from Suc.IH[OF this] False show ?thesis by (subst bits.simps) simp
  qed
qed

lemma fl_exact: "n < 2 ^ 53 \<Longrightarrow> fl n = n"
  using bits_le[of n 53] by (simp add: fl_def)

lemma pow_round_exact: "n < 2 ^ 53 \<Longrightarrow> pow_round up n = n"
  using bits_le[of n 53] by (simp add: pow_round_def)

lemma bits_upper: "n < 2 ^ bits n"
proof (induction n rule: bits.induct)
  case (1 n)
  show ?case
  proof (cases "n = 0")
    case True
    then show ?thesis by simp
  next
    case False
    from 1[OF False] have "n div 2 < 2 ^ bits (n div 2)" .
    then have "n < 2 * 2 ^ bits (n div 2)" by simp
    with False show ?thesis by (subst bits.simps) simp
  qed
qed

lemma bits_lower: "n \<noteq> 0 \<Longrightarrow> 2 ^ (bits n - 1) \<le> n"
proof (induction n rule: bits.induct)
  case (1 n)
  show ?case
  proof (cases "n div 2 = 0")
    case True
    with "1.prems" have "n = 1" by (simp add: div_eq_0_iff)
    then show ?thesis by (simp add: bits.simps)
  next
    case False
    from "1.IH"[OF "1.prems" False] have "2 ^ (bits (n div 2) - 1) \<le> n div 2" .
    then have "2 * 2 ^ (bits (n div 2) - 1) \<le> n" by simp
    moreover have "bits (n div 2) \<noteq> 0" using False by (subst bits.simps) simp
    then have "2 * 2 ^ (bits (n div 2) - 1) = (2::nat) ^ bits (n div 2)"
      by (cases "bits (n div 2)") simp_all
    ultimately have "2 ^ bits (n div 2) \<le> n" by simp
    with "1.prems" show ?thesis by (subst bits.simps) simp
  qed
qed

text \<open>A number of more than 53 bits lies between two neighbouring doubles, and both
  roundings return one of the two.\<close>

lemma long_number:
  assumes "\<not> bits n \<le> 53"
  defines "e \<equiv> bits n - 53"
  defines "q \<equiv> n div 2 ^ e"
  shows "2 ^ (52 + e) \<le> n" and "2 ^ 52 \<le> q" and "q * 2 ^ e \<le> n" and "n < (q + 1) * 2 ^ e"
    and "fl n = q * 2 ^ e \<or> fl n = (q + 1) * 2 ^ e"
    and "pow_round up n = n \<or> pow_round up n = q * 2 ^ e \<or> pow_round up n = (q + 1) * 2 ^ e"
proof -
  have n0: "n \<noteq> 0" using assms(1) by (cases "n = 0") (simp_all add: bits.simps)
  have split: "bits n - 1 = 52 + e" using assms(1) by (simp add: e_def)
  show low: "2 ^ (52 + e) \<le> n" using bits_lower[OF n0] by (simp only: split)
  then have "(2 ^ (52 + e)) div 2 ^ e \<le> q" unfolding q_def by (rule div_le_mono)
  then show "2 ^ 52 \<le> q" by (simp add: power_add)
  show "q * 2 ^ e \<le> n" unfolding q_def by simp
  have "n mod 2 ^ e < 2 ^ e" by simp
  moreover have "n = q * 2 ^ e + n mod 2 ^ e"
    unfolding q_def by (simp only: div_mult_mod_eq)
  ultimately have "n < q * 2 ^ e + 2 ^ e" by linarith
  then show "n < (q + 1) * 2 ^ e" by (simp add: algebra_simps)
  show "fl n = q * 2 ^ e \<or> fl n = (q + 1) * 2 ^ e"
    using assms(1) unfolding fl_def Let_def e_def q_def by (simp only: if_False) simp
  show "pow_round up n = n \<or> pow_round up n = q * 2 ^ e \<or> pow_round up n = (q + 1) * 2 ^ e"
    using assms(1) unfolding pow_round_def Let_def e_def q_def by (simp only: if_False) simp
qed

lemma power_le_long:
  assumes "\<not> bits n \<le> 53" and "2 ^ k \<le> n"
  shows "2 ^ k \<le> n div 2 ^ (bits n - 53) * 2 ^ (bits n - 53)"
proof -
  define e where "e = bits n - 53"
  define q where "q = n div 2 ^ e"
  note L = long_number[OF assms(1), folded e_def, folded q_def]
  have "(2::nat) ^ k < 2 ^ bits n" using assms(2) bits_upper[of n] by (rule le_less_trans)
  then have "k < bits n" by simp
  then have "k \<le> 52 + e" using assms(1) by (simp add: e_def)
  then have "(2::nat) ^ k \<le> 2 ^ (52 + e)" by (rule power_increasing) simp
  also have "\<dots> = 2 ^ 52 * 2 ^ e" by (simp only: power_add)
  also have "\<dots> \<le> q * 2 ^ e" using L(2) by (rule mult_le_mono1)
  finally show ?thesis unfolding q_def e_def .
qed

lemma fl_ge_power:
  assumes "2 ^ k \<le> n"
  shows "2 ^ k \<le> fl n"
proof (cases "bits n \<le> 53")
  case True
  with assms show ?thesis by (simp add: fl_def)
next
  case False
  define e where "e = bits n - 53"
  define q where "q = n div 2 ^ e"
  have low: "2 ^ k \<le> q * 2 ^ e"
    using power_le_long[OF False assms] unfolding q_def e_def .
  have "q * 2 ^ e \<le> (q + 1) * 2 ^ e" by simp
  with low have up: "2 ^ k \<le> (q + 1) * 2 ^ e" by (rule order_trans)
  from long_number(5)[OF False, folded e_def, folded q_def] low up show ?thesis by auto
qed


lemma fl_less_double:
  assumes "1 \<le> n"
  shows "fl n < 2 * n"
proof (cases "bits n \<le> 53")
  case True
  with assms show ?thesis by (simp add: fl_def)
next
  case False
  define e where "e = bits n - 53"
  define q where "q = n div 2 ^ e"
  note L = long_number[OF False, folded e_def, folded q_def]
  have "(2::nat) ^ e < 2 ^ (52 + e)" by simp
  from this L(1) have small: "2 ^ e < n" by (rule less_le_trans)
  have "(q + 1) * 2 ^ e = q * 2 ^ e + 2 ^ e" by (simp add: algebra_simps)
  with L(3) small have "(q + 1) * 2 ^ e < 2 * n" by simp
  moreover have "q * 2 ^ e < 2 * n" using L(3) assms by simp
  ultimately show ?thesis using L(5) by auto
qed

lemma fl_pos: "1 \<le> n \<Longrightarrow> 1 \<le> fl n"
  using fl_ge_power[of 0 n] by simp

lemma fl_zero: "fl 0 = 0"
  by (simp add: fl_def bits.simps)

lemma small_float: "n < 2 ^ 53 \<Longrightarrow> \<not> float_bound \<le> n"
proof -
  assume "n < 2 ^ 53"
  moreover have "(2::nat) ^ 53 < 2 ^ 1024" by simp
  ultimately have "n < 2 ^ 1024" by (rule less_trans)
  then show ?thesis by (simp add: float_bound_def)
qed

lemma to_float_small: "n < 2 ^ 53 \<Longrightarrow> to_float n = Inr n"
  using small_float[of n] by (simp add: to_float_def fl_exact)

lemma as_float_small: "val num < 2 ^ 53 \<Longrightarrow> as_float num = Inr (val num)"
  by (cases num) (simp_all add: as_float_def to_float_small)

lemma truediv_small:
  assumes "val num < 2 ^ 53" and "d \<noteq> 0"
  shows "truediv num d = Inr (FloatN (val num div d))"
proof -
  have "val num div d \<le> val num" by simp
  from this assms(1) have s: "val num div d < 2 ^ 53" by (rule le_less_trans)
  from small_float[OF s] fl_exact[OF s] assms(2) show ?thesis by (simp add: truediv_def)
qed


lemma truediv_float: "truediv num d = Inr num' \<Longrightarrow> \<exists>m. num' = FloatN m"
  by (auto simp: truediv_def split: if_splits)

subsection \<open>The stripping loops\<close>

lemma strip_factor_zero:
  assumes "strip_factor p factorization num = Some y" and "p \<noteq> 0"
  shows "val num \<noteq> 0"
proof -
  have "p \<noteq> 0 \<longrightarrow> val num \<noteq> 0"
  proof (rule strip_factor.raw_induct[where P = "\<lambda>p f n y. p \<noteq> 0 \<longrightarrow> val n \<noteq> 0", OF _ assms(1)])
    fix strip :: "nat \<Rightarrow> nat list \<Rightarrow> number \<Rightarrow> (error + nat list \<times> number) option"
    fix p f n y
    assume IH: "\<And>p f n y. strip p f n = Some y \<Longrightarrow> p \<noteq> 0 \<longrightarrow> val n \<noteq> 0"
      and step: "(if val n mod p = 0
                  then case truediv n p of Inl e \<Rightarrow> Some (Inl e)
                       | Inr num' \<Rightarrow> strip p (f @ [p]) num'
                  else Some (Inr (f, n))) = Some y"
    show "p \<noteq> 0 \<longrightarrow> val n \<noteq> 0"
    proof (intro impI notI)
      assume p: "p \<noteq> 0" and z: "val n = 0"
      then have "truediv n p = Inr (FloatN 0)"
        by (simp add: truediv_def fl_zero float_bound_def)
      with step z have "strip p (f @ [p]) (FloatN 0) = Some y" by simp
      from IH[OF this] p show False by simp
    qed
  qed
  with assms(2) show ?thesis by simp
qed

lemma strip_factor_terminates:
  assumes "2 \<le> p" and "1 \<le> val num"
  shows "\<exists>r. strip_factor p factorization num = Some r"
  using assms(2)
proof (induction "val num" arbitrary: num factorization rule: less_induct)
  case less
  show ?case
  proof (cases "val num mod p = 0")
    case False
    then show ?thesis by (subst strip_factor.simps) simp
  next
    case True
    show ?thesis
    proof (cases "truediv num p")
      case (Inl e)
      with True show ?thesis by (subst strip_factor.simps) simp
    next
      case (Inr num')
      then have v: "val num' = fl (val num div p)"
        by (auto simp: truediv_def split: if_splits)
      from True have eq: "val num = p * (val num div p)" by auto
      with less.prems have pos: "1 \<le> val num div p" by (cases "val num div p") auto
      have "fl (val num div p) < 2 * (val num div p)" using pos by (rule fl_less_double)
      also have "\<dots> \<le> p * (val num div p)" using assms(1) by simp
      finally have lt: "val num' < val num" using eq v by simp
      have pos': "1 \<le> val num'" unfolding v using pos by (rule fl_pos)
      from less.hyps[OF lt pos', of "factorization @ [p]"] True Inr show ?thesis
        by (subst strip_factor.simps) simp
    qed
  qed
qed


text \<open>Below \<open>2 ** 53\<close> every quotient is exact and the loops return.\<close>

lemma strip_factor_small:
  assumes "2 \<le> p" and "1 \<le> val num" and "val num < 2 ^ 53"
  shows "\<exists>f' n'. strip_factor p factorization num = Some (Inr (f', n'))
           \<and> prod_list f' * val n' = prod_list factorization * val num
           \<and> val n' mod p \<noteq> 0 \<and> (odd (val num) \<longrightarrow> odd (val n'))
           \<and> 1 \<le> val n' \<and> val n' < 2 ^ 53"
  using assms(2,3)
proof (induction "val num" arbitrary: num factorization rule: less_induct)
  case less
  show ?case
  proof (cases "val num mod p = 0")
    case False
    with less.prems show ?thesis by (subst strip_factor.simps) simp
  next
    case True
    have p0: "p \<noteq> 0" using assms(1) by simp
    note td = truediv_small[OF less.prems(2) p0]
    from True have eq: "val num = p * (val num div p)" by auto
    with less.prems have pos: "1 \<le> val num div p" by (cases "val num div p") auto
    have lt: "val num div p < val num" using less.prems assms(1) by (intro div_less_dividend) auto
    then have sm: "val num div p < 2 ^ 53" using less.prems(2) by simp
    from less.hyps[of "FloatN (val num div p)" "factorization @ [p]"] lt pos sm
    obtain f' n' where r: "strip_factor p (factorization @ [p]) (FloatN (val num div p))
          = Some (Inr (f', n'))"
      and i: "prod_list f' * val n' = prod_list (factorization @ [p]) * (val num div p)"
        "val n' mod p \<noteq> 0" "odd (val num div p) \<longrightarrow> odd (val n')" "1 \<le> val n'" "val n' < 2 ^ 53"
      by auto
    have "prod_list (factorization @ [p]) * (val num div p) = prod_list factorization * val num"
      using eq by (simp add: mult.assoc)
    moreover have "odd (val num) \<longrightarrow> odd (val num div p)" using eq by (metis even_mult_iff)
    moreover have "strip_factor p factorization num = Some (Inr (f', n'))"
      using True td r by (subst strip_factor.simps) simp
    ultimately show ?thesis using i by auto
  qed
qed

lemma strip_factor_pos:
  assumes "strip_factor p factorization num = Some (Inr (f', n'))" and "p \<noteq> 0" and "1 \<le> val num"
  shows "1 \<le> val n'"
proof -
  have "p \<noteq> 0 \<longrightarrow> 1 \<le> val num \<longrightarrow>
      (\<forall>f'' n''. (Inr (f', n') :: error + nat list \<times> number) = Inr (f'', n'') \<longrightarrow> 1 \<le> val n'')"
  proof (rule strip_factor.raw_induct[where P = "\<lambda>p f n y. p \<noteq> 0 \<longrightarrow> 1 \<le> val n \<longrightarrow>
        (\<forall>f'' n''. y = Inr (f'', n'') \<longrightarrow> 1 \<le> val n'')", OF _ assms(1)])
    fix strip :: "nat \<Rightarrow> nat list \<Rightarrow> number \<Rightarrow> (error + nat list \<times> number) option"
    fix p f n y
    assume IH: "\<And>p f n y. strip p f n = Some y \<Longrightarrow>
        p \<noteq> 0 \<longrightarrow> 1 \<le> val n \<longrightarrow> (\<forall>f'' n''. y = Inr (f'', n'') \<longrightarrow> 1 \<le> val n'')"
      and step: "(if val n mod p = 0
                  then case truediv n p of Inl e \<Rightarrow> Some (Inl e)
                       | Inr num' \<Rightarrow> strip p (f @ [p]) num'
                  else Some (Inr (f, n))) = Some y"
    show "p \<noteq> 0 \<longrightarrow> 1 \<le> val n \<longrightarrow> (\<forall>f'' n''. y = Inr (f'', n'') \<longrightarrow> 1 \<le> val n'')"
    proof (intro impI allI)
      fix f'' n''
      assume p: "p \<noteq> 0" and pos: "1 \<le> val n" and y: "y = Inr (f'', n'')"
      show "1 \<le> val n''"
      proof (cases "val n mod p = 0")
        case False
        with step y pos show ?thesis by simp
      next
        case True
        then have eq: "val n = p * (val n div p)" by auto
        with pos have q: "1 \<le> val n div p" by (cases "val n div p") auto
        show ?thesis
        proof (cases "truediv n p")
          case (Inl e)
          with step True y show ?thesis by simp
        next
          case (Inr num')
          then have "val num' = fl (val n div p)" by (auto simp: truediv_def split: if_splits)
          with fl_pos[OF q] have pos': "1 \<le> val num'" by simp
          from step True Inr have "strip p (f @ [p]) num' = Some y" by simp
          from IH[OF this] p pos' y show ?thesis by simp
        qed
      qed
    qed
  qed
  with assms(2,3) show ?thesis by simp
qed

subsection \<open>The end of a path\<close>

lemma prod_list_insort: "prod_list (insort x xs) = x * prod_list (xs :: nat list)"
  by (induction xs) (auto simp: mult.left_commute)

lemma prod_list_sort: "prod_list (sort xs) = prod_list (xs :: nat list)"
  by (induction xs) (auto simp: prod_list_insort)

lemma prod_list_filter_1: "prod_list (filter (\<lambda>f. f \<noteq> 1) xs) = prod_list (xs :: nat list)"
proof (induction xs)
  case Nil
  show ?case by simp
next
  case (Cons a xs)
  then show ?case by (cases "a = 1") simp_all
qed

lemma finish_props:
  "sorted (finish xs)" "1 \<notin> set (finish xs)" "prod_list (finish xs) = prod_list xs"
proof -
  show "sorted (finish xs)" by (simp add: finish_def)
  show "1 \<notin> set (finish xs)" by (simp add: finish_def)
  show "prod_list (finish xs) = prod_list xs"
    unfolding finish_def by (simp only: prod_list_sort prod_list_filter_1)
qed

lemma finish_no_one: "Suc 0 \<notin> set (finish xs)"
  by (simp add: finish_def)

subsection \<open>The operations of a pass\<close>

lemma randint_result:
  "randint r a b = Inl e \<Longrightarrow> e = ValueError"
  "randint r a b = Inr g \<Longrightarrow> a \<le> g \<and> g \<le> b"
proof -
  show "randint r a b = Inl e \<Longrightarrow> e = ValueError"
    by (auto simp: randint_def split: if_splits)
  assume "randint r a b = Inr g"
  then have ab: "a \<le> b" and g: "g = a + int r mod (b - a + 1)"
    by (auto simp: randint_def split: if_splits)
  from ab have pos: "0 < b - a + 1" by simp
  have "0 \<le> int r mod (b - a + 1)" using pos by (rule pos_mod_sign)
  moreover have "int r mod (b - a + 1) < b - a + 1" using pos by (rule pos_mod_bound)
  ultimately show "a \<le> g \<and> g \<le> b" using g by simp
qed

lemma to_float_error: "to_float n = Inl e \<Longrightarrow> e = OverflowError"
  by (auto simp: to_float_def split: if_splits)

lemma float_pow_error: "float_pow up g p = Inl e \<Longrightarrow> e = OverflowError"
  by (auto simp: float_pow_def bind_err_def split: if_splits sum.splits dest: to_float_error)




lemma power_test_result:
  assumes "power_test up g p num = Inr (Some (a, b))"
  shows "\<exists>x. float_pow up g p = Inr x \<and> a = fl (x + 1) \<and> b = fl (x - 1)"
  using assms
  by (auto simp: power_test_def bind_err_def split: sum.splits if_splits)

lemma int_np_sqrt_result: "int_np_sqrt num = Inr side \<Longrightarrow> side = isqrt (val num)"
  by (cases num) (auto simp: int_np_sqrt_def split: if_splits)


lemma fl_one: "fl (Suc 0) = Suc 0"
  using fl_exact[of "Suc 0"] by simp

lemma truediv_self:
  assumes "d = val num" and "d \<noteq> 0"
  shows "truediv num d = Inr (FloatN 1)"
  using assms by (simp add: truediv_def fl_one float_bound_def)

subsection \<open>The factor extraction\<close>

lemma dvd_two: "(d::nat) dvd 2 \<Longrightarrow> d = 1 \<or> d = 2"
proof -
  assume d: "d dvd 2"
  then have "d \<le> 2" by (rule dvd_imp_le) simp
  moreover have "d \<noteq> 0"
  proof
    assume "d = 0"
    with d show False by simp
  qed
  ultimately show ?thesis by arith
qed

lemma gcd_pull:
  fixes x n :: nat
  assumes "odd n" and "1 \<le> x"
  shows "gcd (x - 1) (n div gcd (x + 1) n) = gcd (x - 1) n"
proof -
  let ?f1 = "gcd (x + 1) n" and ?f2 = "gcd (x - 1) n"
  let ?g = "gcd ?f1 ?f2"
  have f1n: "?f1 dvd n" by simp
  have "odd ?f1"
  proof
    assume "even ?f1"
    then have "even n" using f1n by (rule dvd_trans)
    with assms(1) show False by simp
  qed
  have "?g dvd x + 1" by (rule dvd_trans[OF gcd_dvd1 gcd_dvd1])
  moreover have "?g dvd x - 1" by (rule dvd_trans[OF gcd_dvd2 gcd_dvd1])
  ultimately have "?g dvd (x + 1) - (x - 1)" by (rule dvd_diff_nat)
  moreover have "(x + 1) - (x - 1) = 2" using assms(2) by simp
  ultimately have "?g dvd 2" by simp
  then have "?g = 1 \<or> ?g = 2" by (rule dvd_two)
  moreover have "odd ?g"
  proof
    assume "even ?g"
    moreover have "?g dvd ?f1" by (rule gcd_dvd1)
    ultimately have "even ?f1" by (rule dvd_trans)
    with \<open>odd ?f1\<close> show False by simp
  qed
  ultimately have "?g = 1"
  proof (elim disjE)
    assume "?g = 2"
    then have "even ?g" by (simp only: dvd_refl)
    with \<open>odd ?g\<close> show ?thesis by blast
  qed
  then have cop: "coprime ?f2 ?f1" by (simp add: coprime_iff_gcd_eq_1 gcd.commute)
  have "?f2 dvd ?f1 * (n div ?f1)" by simp
  then have "?f2 dvd n div ?f1"
    using cop by (simp only: coprime_dvd_mult_right_iff)
  moreover have "?f2 dvd x - 1" by simp
  ultimately have one: "?f2 dvd gcd (x - 1) (n div ?f1)" by simp
  have "n = ?f1 * (n div ?f1)" by simp
  then have "n div ?f1 dvd n" by (rule dvdI[where k = "?f1", OF trans]) (rule mult.commute)
  then have "gcd (x - 1) (n div ?f1) dvd n" by (rule dvd_trans[OF gcd_dvd2])
  then have two: "gcd (x - 1) (n div ?f1) dvd ?f2" by simp
  from two one show ?thesis by (rule dvd_antisym)
qed

lemma div_gcd:
  fixes n :: nat
  assumes "1 \<le> n"
  shows "py_gcd a n \<noteq> 0" and "py_gcd a n * (n div py_gcd a n) = n"
    and "1 \<le> n div py_gcd a n" and "n div py_gcd a n \<le> n"
    and "odd n \<Longrightarrow> odd (n div py_gcd a n)"
proof -
  show "py_gcd a n \<noteq> 0" using assms by (simp add: py_gcd_def)
  show eq: "py_gcd a n * (n div py_gcd a n) = n" by (simp add: py_gcd_def)
  show "1 \<le> n div py_gcd a n"
  proof (cases "n div py_gcd a n")
    case 0
    with eq assms show ?thesis by simp
  next
    case (Suc k)
    then show ?thesis by simp
  qed
  show "n div py_gcd a n \<le> n" by simp
  show "odd (n div py_gcd a n)" if "odd n"
  proof
    assume "even (n div py_gcd a n)"
    then have "even (py_gcd a n * (n div py_gcd a n))" by simp
    with eq that show False by simp
  qed
qed


lemma extract_factors_sorted:
  "extract_factors quick_compute g period a b f num = Return fs \<Longrightarrow> sorted fs \<and> 1 \<notin> set fs"
  by (auto simp: extract_factors_def Let_def caught_def conclude_def finish_props finish_no_one
      split: sum.splits if_splits)

text \<open>Below \<open>2 ** 53\<close> the divisions of the extraction are exact, none raises, and the
  cofactor stays in that range. For an odd cofactor and the two exact neighbours of the
  power, the product of the factors and the cofactor is kept.\<close>

lemma extract_factors_small:
  assumes pos: "1 \<le> val num" and small: "val num < 2 ^ 53"
  shows "\<exists>f' n'. extract_factors quick_compute g period a b f num
             = conclude quick_compute f' (FloatN n')
           \<and> 1 \<le> n' \<and> n' < 2 ^ 53 \<and> n' \<le> val num
           \<and> (odd (val num) \<longrightarrow> (\<forall>x. 1 \<le> x \<longrightarrow> a = x + 1 \<longrightarrow> b = x - 1 \<longrightarrow>
                 prod_list f' * n' = prod_list f * val num \<and> odd n'))"
proof -
  define v where "v = val num"
  define n1 where "n1 = v div py_gcd a v"
  define n2 where "n2 = n1 div py_gcd b n1"
  define m where "m = n2 div py_gcd g n2"
  define n3 where "n3 = m div py_gcd g m"
  have v1: "1 \<le> v" and vs: "v < 2 ^ 53" using pos small by (simp_all add: v_def)
  note a1 = div_gcd[OF v1, of a, folded n1_def]
  note a2 = div_gcd[OF a1(3), of b, folded n2_def]
  note a3 = div_gcd[OF a2(3), of g, folded m_def]
  note a4 = div_gcd[OF a3(3), of g, folded n3_def]
  have s1: "n1 < 2 ^ 53" using a1(4) vs by (rule le_less_trans)
  have s2: "n2 < 2 ^ 53" using a2(4) s1 by (rule le_less_trans)
  have s3: "m < 2 ^ 53" using a3(4) s2 by (rule le_less_trans)
  have s4: "n3 < 2 ^ 53" using a4(4) s3 by (rule le_less_trans)
  have l2: "n2 \<le> val num" using a2(4) a1(4) unfolding v_def by (rule order_trans)
  have "n3 \<le> m" by (rule a4(4))
  also note a3(4)
  also note l2
  finally have l3: "n3 \<le> val num" .
  have t1: "truediv num (py_gcd a v) = Inr (FloatN n1)"
    using truediv_small[OF small a1(1)[unfolded v_def]] by (simp add: n1_def v_def)
  have t2: "truediv (FloatN n1) (py_gcd b n1) = Inr (FloatN n2)"
    using truediv_small[of "FloatN n1", OF _ a2(1)] s1 by (simp add: n2_def)
  have t3: "truediv (FloatN n2) (py_gcd g n2) = Inr (FloatN m)"
    using truediv_small[of "FloatN n2", OF _ a3(1)] s2 by (simp add: m_def)
  have t4: "truediv (FloatN m) (py_gcd g m) = Inr (FloatN n3)"
    using truediv_small[of "FloatN m", OF _ a4(1)] s3 by (simp add: n3_def)
  let ?F2 = "f @ [py_gcd a v, py_gcd b v]"
  let ?F3 = "?F2 @ [py_gcd g n2, py_gcd g m]"
  have ex: "extract_factors quick_compute g period a b f num =
      (if period = 2 then conclude quick_compute ?F3 (FloatN n3)
       else conclude quick_compute ?F2 (FloatN n2))"
    using t1 t2 t3 t4 by (simp add: extract_factors_def Let_def v_def[symmetric])
  have inv: "prod_list ?F2 * n2 = prod_list f * v \<and> odd n2
      \<and> prod_list ?F3 * n3 = prod_list f * v \<and> odd n3"
    if odd: "odd v" and x: "1 \<le> x" and ab: "a = x + 1" "b = x - 1" for x
  proof -
    have pull: "py_gcd b n1 = py_gcd b v"
      unfolding n1_def py_gcd_def ab by (rule gcd_pull[OF odd x])
    have p2: "py_gcd a v * py_gcd b v * n2 = v"
      using a1(2) a2(2) pull by (simp add: mult.assoc)
    have p3: "py_gcd a v * py_gcd b v * (py_gcd g n2 * (py_gcd g m * n3)) = v"
      using p2 a3(2) a4(2) by simp
    have F2: "prod_list ?F2 * n2 = prod_list f * v"
      using p2 by (simp add: mult.assoc)
    have F3: "prod_list ?F3 * n3 = prod_list f * v"
      using p3 by (simp add: mult.assoc)
    have o1: "odd n1" using odd by (rule a1(5))
    have o2: "odd n2" using o1 by (rule a2(5))
    have o3: "odd m" using o2 by (rule a3(5))
    have o4: "odd n3" using o3 by (rule a4(5))
    from F2 F3 o2 o4 show ?thesis by simp
  qed
  show ?thesis
  proof (cases "period = 2")
    case True
    with ex have "extract_factors quick_compute g period a b f num
        = conclude quick_compute ?F3 (FloatN n3)" by simp
    moreover have "odd (val num) \<longrightarrow> (\<forall>x. 1 \<le> x \<longrightarrow> a = x + 1 \<longrightarrow> b = x - 1 \<longrightarrow>
        prod_list ?F3 * n3 = prod_list f * val num \<and> odd n3)"
      using inv unfolding v_def by blast
    ultimately show ?thesis using a4(3) s4 l3 by blast
  next
    case False
    with ex have "extract_factors quick_compute g period a b f num
        = conclude quick_compute ?F2 (FloatN n2)" by simp
    moreover have "odd (val num) \<longrightarrow> (\<forall>x. 1 \<le> x \<longrightarrow> a = x + 1 \<longrightarrow> b = x - 1 \<longrightarrow>
        prod_list ?F2 * n2 = prod_list f * val num \<and> odd n2)"
      using inv unfolding v_def by blast
    ultimately show ?thesis using a2(3) s2 l2 by blast
  qed
qed

subsection \<open>One pass\<close>

lemma caught_Raise: "caught e f num = Raise e' \<Longrightarrow> e' = e \<and> e \<noteq> OverflowError"
  by (auto simp: caught_def split: if_splits)

lemma square_branch:
  assumes "(isqrt (val num)) ^ 2 = val num" and "val num \<noteq> 1"
  shows "body func up quick_compute r f num =
     (case int_np_sqrt num of
        Inl e \<Rightarrow> Raise e
      | Inr side \<Rightarrow>
          if val num = 0 then Raise ZeroDivisionError
          else Return (finish (f @ [side, side, 1])))"
proof (cases "int_np_sqrt num")
  case (Inl e)
  with assms show ?thesis by (simp add: body_def)
next
  case (Inr side)
  from int_np_sqrt_result[OF Inr] assms(1) have sq: "side ^ 2 = val num" by simp
  show ?thesis
  proof (cases "val num = 0")
    case True
    with sq have "truediv num (side ^ 2) = Inl ZeroDivisionError" by (simp add: truediv_def)
    with assms Inr True show ?thesis by (simp add: body_def)
  next
    case False
    with sq have "truediv num (side ^ 2) = Inr (FloatN 1)" by (intro truediv_self) simp_all
    with assms Inr False show ?thesis by (simp add: body_def)
  qed
qed


lemma body_sorted:
  assumes "body func up quick_compute r f num = Return fs"
  shows "sorted fs \<and> 1 \<notin> set fs"
proof -
  have fin: "sorted (finish l) \<and> 1 \<notin> set (finish l)" for l
    by (simp add: finish_props finish_no_one)
  show ?thesis
  proof (cases "val num = 1")
    case True
    with assms fin show ?thesis by (auto simp: body_def)
  next
    case n1: False
    show ?thesis
    proof (cases "(isqrt (val num)) ^ 2 = val num")
      case True
      from assms fin show ?thesis
        unfolding square_branch[OF True n1]
        by (auto split: sum.splits if_splits)
    next
      case sq: False
      have "\<exists>g period a b. extract_factors quick_compute g period a b f num = Return fs"
        using assms n1 sq
        by (auto simp: body_def Let_def caught_def split: sum.splits if_splits option.splits)
      then show ?thesis using extract_factors_sorted by blast
    qed
  qed
qed

text \<open>Below \<open>2 ** 53\<close> the conversions of a pass change nothing.\<close>

lemma int_mod_small:
  assumes "1 \<le> val num" and "g < 2 ^ 53"
  shows "int_mod g num = Inr (g mod val num)"
  using assms by (cases num) (simp_all add: int_mod_def to_float_small bind_err_def)

lemma float_mod_small:
  assumes "1 \<le> val num" and "val num < 2 ^ 53"
  shows "float_mod x num = Inr (x mod val num)"
  using assms by (simp add: float_mod_def as_float_small bind_err_def)

lemma power_test_small:
  assumes "1 \<le> val num" and "val num < 2 ^ 53"
  shows "power_test up g p num =
     (case float_pow up g p of
        Inl e \<Rightarrow> Inl e
      | Inr x \<Rightarrow>
          Inr (if fl (x + 1) mod val num \<noteq> 0 \<and> fl (x - 1) mod val num \<noteq> 0
               then Some (fl (x + 1), fl (x - 1)) else None))"
  by (simp add: power_test_def float_mod_small[OF assms] bind_err_def split: sum.splits)

lemma conclude_cases:
  "conclude quick_compute f n = Return (finish (f @ [val n])) \<and> quick_compute
   \<or> conclude quick_compute f n = Continue f n \<and> \<not> quick_compute"
  by (simp add: conclude_def)

text \<open>What a pass can do to a cofactor below \<open>2 ** 53\<close>: return, leave the state as it
  is, let an exception of the period function out, or extract factors.\<close>

lemma body_small_cases:
  assumes pos: "1 \<le> val num" and small: "val num < 2 ^ 53"
  shows "body func up quick_compute r f num = Return (finish (f @ [val num])) \<and> val num = 1
     \<or> body func up quick_compute r f num
          = Return (finish (f @ [isqrt (val num), isqrt (val num), 1]))
        \<and> (isqrt (val num)) ^ 2 = val num
     \<or> body func up quick_compute r f num = Continue f num
     \<or> (\<exists>g e. body func up quick_compute r f num = Raise e \<and> func (val num) g = Inl e
           \<and> e \<noteq> ValueError \<and> e \<noteq> OverflowError)
     \<or> (\<exists>g period x. 3 \<le> g \<and> g < val num \<and> func (val num) g = Inr period
           \<and> float_pow up g period = Inr x
           \<and> body func up quick_compute r f num
               = extract_factors quick_compute g period (fl (x + 1)) (fl (x - 1)) f num)"
proof (cases "val num = 1")
  case True
  then show ?thesis by (simp add: body_def)
next
  case n1: False
  show ?thesis
  proof (cases "(isqrt (val num)) ^ 2 = val num")
    case True
    have "\<not> (2::nat) ^ 64 \<le> val num"
    proof
      assume big: "(2::nat) ^ 64 \<le> val num"
      from big small have "(2::nat) ^ 64 < 2 ^ 53" by (rule le_less_trans)
      then show False by simp
    qed
    then have "int_np_sqrt num = Inr (isqrt (val num))"
      by (cases num) (simp_all add: int_np_sqrt_def)
    with pos True show ?thesis unfolding square_branch[OF True n1] by simp
  next
    case sq: False
    show ?thesis
    proof (cases "randint r 3 (int (val num) - 1)")
      case (Inl e)
      with n1 sq randint_result(1)[OF Inl] show ?thesis by (simp add: body_def)
    next
      case (Inr g)
      from randint_result(2)[OF Inr] have g1: "3 \<le> nat g" and gv: "nat g < val num"
        by linarith+
      from gv small have gs: "nat g < 2 ^ 53" by (rule less_trans)
      have m: "int_mod (nat g) num = Inr (nat g)"
        using int_mod_small[OF pos gs] gv by simp
      have ne: "nat g \<noteq> val num" "nat g \<noteq> 0" using gv g1 by simp_all
      show ?thesis
      proof (cases "func (val num) (nat g)")
        case (Inl e)
        with n1 sq Inr m ne show ?thesis
          by (cases "e = ValueError \<or> e = OverflowError")
             (auto simp: body_def Let_def caught_def)
      next
        case per: (Inr period)
        show ?thesis
        proof (cases "float_pow up (nat g) period")
          case (Inl e)
          with float_pow_error[OF Inl] n1 sq Inr m ne per show ?thesis
            by (simp add: body_def Let_def caught_def power_test_small[OF pos small])
        next
          case x: (Inr x)
          show ?thesis
          proof (cases "period mod 2 \<noteq> 1 \<and> fl (x + 1) mod val num \<noteq> 0
              \<and> fl (x - 1) mod val num \<noteq> 0")
            case True
            with n1 sq Inr m ne per x
            have "body func up quick_compute r f num
                = extract_factors quick_compute (nat g) period (fl (x + 1)) (fl (x - 1)) f num"
              by (simp add: body_def Let_def power_test_small[OF pos small])
            with g1 gv per x show ?thesis by blast
          next
            case False
            with n1 sq Inr m ne per x
            have "body func up quick_compute r f num = Continue f num"
              by (auto simp: body_def Let_def power_test_small[OF pos small])
            then show ?thesis by simp
          qed
        qed
      qed
    qed
  qed
qed

lemma body_small:
  assumes pos: "1 \<le> val num" and small: "val num < 2 ^ 53"
  shows "(\<forall>e. body func up quick_compute r f num = Raise e \<longrightarrow>
            (\<exists>g. func (val num) g = Inl e) \<and> e \<noteq> ValueError \<and> e \<noteq> OverflowError)
       \<and> (\<forall>f' n'. body func up quick_compute r f num = Continue f' n' \<longrightarrow>
            1 \<le> val n' \<and> val n' < 2 ^ 53 \<and> val n' \<le> val num)"
proof -
  have ext: "(\<forall>e. extract_factors quick_compute g period a b f num \<noteq> Raise e)
      \<and> (\<forall>f' n'. extract_factors quick_compute g period a b f num = Continue f' n' \<longrightarrow>
            1 \<le> val n' \<and> val n' < 2 ^ 53 \<and> val n' \<le> val num)" for g period a b
  proof -
    from extract_factors_small[OF pos small, of quick_compute g period a b f]
    obtain f1 n1 where e: "extract_factors quick_compute g period a b f num
        = conclude quick_compute f1 (FloatN n1)" and n: "1 \<le> n1" "n1 < 2 ^ 53" "n1 \<le> val num"
      by blast
    from conclude_cases[of quick_compute f1 "FloatN n1"] n show ?thesis
      unfolding e by auto
  qed
  from body_small_cases[OF pos small, of func up quick_compute r f] show ?thesis
  proof (elim disjE exE conjE)
    fix g period x
    assume "body func up quick_compute r f num
        = extract_factors quick_compute g period (fl (x + 1)) (fl (x - 1)) f num"
    with ext[of g period "fl (x + 1)" "fl (x - 1)"] show ?thesis by simp
  qed (use pos small in auto)
qed

text \<open>The product of the factors and the cofactor, for an odd cofactor below \<open>2 ** 53\<close>
  and powers that a double holds exactly.\<close>

lemma less_power_self:
  fixes g k :: nat
  assumes "2 \<le> g"
  shows "k < g ^ k"
proof -
  have "k < 2 ^ k" by (rule less_exp)
  also have "\<dots> \<le> g ^ k" using assms by (rule power_mono) simp
  finally show ?thesis .
qed

lemma float_pow_exact:
  assumes "g < 2 ^ 53" and "g ^ (p div 2) < 2 ^ 53" and "p div 2 < 2 ^ 53"
  shows "float_pow up g p = Inr (g ^ (p div 2))"
  using assms small_float[OF assms(2)]
  by (simp add: float_pow_def to_float_small pow_round_exact bind_err_def)

lemma body_inv:
  assumes odd: "odd (val num)" and pos: "1 \<le> val num" and small: "val num < 2 ^ 53"
    and exact: "\<forall>g p. g < val num \<and> func (val num) g = Inr p \<longrightarrow> g ^ (p div 2) + 1 < 2 ^ 53"
  shows "(\<forall>fs. body func up quick_compute r f num = Return fs \<longrightarrow>
            prod_list fs = prod_list f * val num)
       \<and> (\<forall>f' n'. body func up quick_compute r f num = Continue f' n' \<longrightarrow>
            prod_list f' * val n' = prod_list f * val num \<and> odd (val n'))"
  using body_small_cases[OF pos small, of func up quick_compute r f]
proof (elim disjE exE conjE)
  assume "body func up quick_compute r f num = Return (finish (f @ [val num]))"
  then show ?thesis by (simp add: finish_props)
next
  assume b: "body func up quick_compute r f num
      = Return (finish (f @ [isqrt (val num), isqrt (val num), 1]))"
    and sq: "(isqrt (val num)) ^ 2 = val num"
  from sq have "isqrt (val num) * isqrt (val num) = val num" by (simp add: power2_eq_square)
  then have "prod_list (f @ [isqrt (val num), isqrt (val num), 1]) = prod_list f * val num"
    by (simp add: mult.assoc)
  then have "prod_list (finish (f @ [isqrt (val num), isqrt (val num), 1])) = prod_list f * val num"
    by (simp only: finish_props(3))
  with b show ?thesis by simp
next
  assume "body func up quick_compute r f num = Continue f num"
  with odd show ?thesis by simp
next
  fix g e
  assume "body func up quick_compute r f num = Raise e"
  then show ?thesis by simp
next
  fix g period x
  assume g3: "3 \<le> g" and gv: "g < val num" and per: "func (val num) g = Inr period"
    and x: "float_pow up g period = Inr x"
    and b: "body func up quick_compute r f num
        = extract_factors quick_compute g period (fl (x + 1)) (fl (x - 1)) f num"
  let ?X = "g ^ (period div 2)"
  from exact gv per have bound: "?X + 1 < 2 ^ 53" by blast
  from bound have Xs: "?X < 2 ^ 53" "?X - 1 < 2 ^ 53" by simp_all
  have "period div 2 < ?X" using g3 by (intro less_power_self) simp
  from this Xs(1) have ps: "period div 2 < 2 ^ 53" by (rule less_trans)
  have g1: "1 \<le> g" using g3 by simp
  from gv small have gs: "g < 2 ^ 53" by (rule less_trans)
  from float_pow_exact[OF gs Xs(1) ps, of up] x have xX: "x = ?X" by simp
  have x1: "1 \<le> x" using g1 xX by simp
  have ee: "fl (x + 1) = x + 1" "fl (x - 1) = x - 1"
    using fl_exact[OF bound] fl_exact[OF Xs(2)] unfolding xX by simp_all
  from extract_factors_small[OF pos small, of quick_compute g period "x + 1" "x - 1" f] odd x1
  obtain f1 n1 where e: "extract_factors quick_compute g period (x + 1) (x - 1) f num
        = conclude quick_compute f1 (FloatN n1)"
    and i: "prod_list f1 * n1 = prod_list f * val num" "odd n1"
    by blast
  have "prod_list (finish (f1 @ [n1])) = prod_list f * val num"
    using i(1) by (simp only: finish_props(3)) simp
  with conclude_cases[of quick_compute f1 "FloatN n1"] i show ?thesis
    unfolding b ee e by auto
qed

subsection \<open>The main loop\<close>

lemma main_loop_sorted:
  assumes "main_loop func up quick_compute rnd k i f num = Inr fs"
  shows "sorted fs \<and> 1 \<notin> set fs"
  using assms
proof (induction k arbitrary: i f num)
  case 0
  then show ?case by (auto simp: finish_props finish_no_one)
next
  case (Suc k)
  show ?case
  proof (cases "body func up quick_compute (rnd i) f num")
    case (Return fs')
    with Suc.prems body_sorted[OF Return] show ?thesis by simp
  next
    case (Continue f' n')
    with Suc.prems have "main_loop func up quick_compute rnd k (Suc i) f' n' = Inr fs" by simp
    then show ?thesis by (rule Suc.IH)
  next
    case (Raise e)
    with Suc.prems show ?thesis by simp
  qed
qed


lemma main_loop_small:
  assumes "1 \<le> val num" and "val num < 2 ^ 53"
    and ok: "\<forall>n g e. func n g = Inl e \<longrightarrow> e = ValueError \<or> e = OverflowError"
  shows "\<exists>fs. main_loop func up quick_compute rnd k i f num = Inr fs"
  using assms(1,2)
proof (induction k arbitrary: i f num)
  case 0
  show ?case by simp
next
  case (Suc k)
  note b = body_small[OF Suc.prems, of func up quick_compute "rnd i" f]
  show ?case
  proof (cases "body func up quick_compute (rnd i) f num")
    case (Return fs)
    then show ?thesis by simp
  next
    case (Continue f' n')
    with b have "1 \<le> val n'" "val n' < 2 ^ 53" by simp_all
    from Suc.IH[OF this, of "Suc i" f'] Continue show ?thesis by simp
  next
    case (Raise e)
    with b ok show ?thesis by blast
  qed
qed

lemma main_loop_inv:
  assumes "odd (val num)" and "1 \<le> val num" and "val num < 2 ^ 53"
    and exact: "\<forall>n g p. g < n \<and> n \<le> val num \<and> func n g = Inr p
                  \<longrightarrow> g ^ (p div 2) + 1 < 2 ^ 53"
  shows "\<forall>fs. main_loop func up quick_compute rnd k i f num = Inr fs \<longrightarrow>
            prod_list fs = prod_list f * val num"
  using assms
proof (induction k arbitrary: i f num)
  case 0
  then show ?case by (simp add: finish_props)
next
  case (Suc k)
  have ex: "\<forall>g p. g < val num \<and> func (val num) g = Inr p \<longrightarrow> g ^ (p div 2) + 1 < 2 ^ 53"
    using Suc.prems(4) by blast
  note inv = body_inv[where func = func and num = num and up = up
      and quick_compute = quick_compute and r = "rnd i" and f = f, OF Suc.prems(1,2,3) ex]
  note b = body_small[OF Suc.prems(2,3), of func up quick_compute "rnd i" f]
  show ?case
  proof (cases "body func up quick_compute (rnd i) f num")
    case (Return fs)
    with inv show ?thesis by simp
  next
    case (Continue f' n')
    with inv b have c: "prod_list f' * val n' = prod_list f * val num" "odd (val n')"
      "1 \<le> val n'" "val n' < 2 ^ 53" "val n' \<le> val num" by simp_all
    have ex': "\<forall>n g p. g < n \<and> n \<le> val n' \<and> func n g = Inr p
        \<longrightarrow> g ^ (p div 2) + 1 < 2 ^ 53"
      using Suc.prems(4) c(5) by (meson order_trans)
    from Suc.IH[OF c(2,3,4) ex', of "Suc i" f'] Continue c(1) show ?thesis by simp
  next
    case (Raise e)
    then show ?thesis by simp
  qed
qed

lemma passes_le: "passes func up quick_compute rnd k i f num \<le> k"
  by (induction k arbitrary: i f num) (auto split: outcome.splits)

lemma state_after_exhausted:
  assumes "state_after func up quick_compute rnd k i f num = Some (f', n')"
  shows "main_loop func up quick_compute rnd k i f num = Inr (finish (f' @ [val n']))"
  using assms
  by (induction k arbitrary: i f num) (auto split: outcome.splits)

subsection \<open>The whole call\<close>

lemma Shor_small:
  assumes "1 \<le> num" and "num < 2 ^ 53"
  shows "\<exists>f2 n2 f5 n5. strip_factor 2 [] (IntN num) = Some (Inr (f2, n2))
     \<and> strip_factor 5 f2 n2 = Some (Inr (f5, n5))
     \<and> odd (val n5) \<and> 1 \<le> val n5 \<and> val n5 < 2 ^ 53 \<and> val n5 \<le> num
     \<and> prod_list f5 * val n5 = num
     \<and> ShorFactoringAlgorithmClassical num limit func quick_compute rnd up
         = Some (main_loop func up quick_compute rnd limit 0 f5 n5)"
proof -
  from strip_factor_small[of 2 "IntN num" "[]"] assms obtain f2 n2
    where s2: "strip_factor 2 [] (IntN num) = Some (Inr (f2, n2))"
      and i2: "prod_list f2 * val n2 = num" "odd (val n2)" "1 \<le> val n2" "val n2 < 2 ^ 53"
    by (auto simp: odd_iff_mod_2_eq_one)
  from strip_factor_small[of 5 n2 f2] i2 obtain f5 n5
    where s5: "strip_factor 5 f2 n2 = Some (Inr (f5, n5))"
      and i5: "prod_list f5 * val n5 = num" "odd (val n5)" "1 \<le> val n5" "val n5 < 2 ^ 53"
    by auto
  have "val n5 dvd num" using i5(1) by (metis dvd_triv_right)
  then have "val n5 \<le> num" using assms(1) by (intro dvd_imp_le) simp_all
  then show ?thesis using s2 s5 i5
    by (simp add: ShorFactoringAlgorithmClassical_def)
qed

lemma Shor_ends:
  assumes "1 \<le> num"
  shows "\<exists>r. ShorFactoringAlgorithmClassical num limit func quick_compute rnd up = Some r"
proof -
  from strip_factor_terminates[of 2 "IntN num" "[]"] assms obtain r2
    where s2: "strip_factor 2 [] (IntN num) = Some r2" by auto
  show ?thesis
  proof (cases r2)
    case (Inl e)
    with s2 show ?thesis by (simp add: ShorFactoringAlgorithmClassical_def)
  next
    case (Inr s)
    obtain f2 n2 where s: "s = (f2, n2)" by (cases s)
    from strip_factor_pos[OF s2[unfolded Inr s]] assms have "1 \<le> val n2" by simp
    from strip_factor_terminates[of 5 n2 f2] this obtain r5
      where s5: "strip_factor 5 f2 n2 = Some r5" by auto
    show ?thesis
      using s2 s5 Inr s by (cases r5) (auto simp: ShorFactoringAlgorithmClassical_def)
  qed
qed

lemma Shor_zero: "ShorFactoringAlgorithmClassical 0 limit func quick_compute rnd up = None"
proof -
  have "strip_factor 2 [] (IntN 0) = None"
    using strip_factor_zero[of 2 "[]" "IntN 0"] by (cases "strip_factor 2 [] (IntN 0)") auto
  then show ?thesis by (simp add: ShorFactoringAlgorithmClassical_def)
qed


lemma factorization_product_in_exact_range:
  assumes run: "ShorFactoringAlgorithmClassical num limit func quick_compute rnd up = Some (Inr fs)"
    and small: "num < 2 ^ 53"
    and exact: "\<forall>n g p. g < n \<and> n \<le> num \<and> func n g = Inr p
                  \<longrightarrow> g ^ (p div 2) + 1 < 2 ^ 53"
  shows "sorted fs \<and> 1 \<notin> set fs \<and> prod_list fs = num"
proof -
  have "num \<noteq> 0"
  proof
    assume "num = 0"
    with run Shor_zero[of limit func quick_compute rnd up] show False by simp
  qed
  then have "1 \<le> num" by simp
  from Shor_small[OF this small, of limit func quick_compute rnd up] obtain f5 n5
    where inv: "odd (val n5)" "1 \<le> val n5" "val n5 < 2 ^ 53" "val n5 \<le> num"
      "prod_list f5 * val n5 = num"
      and call: "ShorFactoringAlgorithmClassical num limit func quick_compute rnd up
         = Some (main_loop func up quick_compute rnd limit 0 f5 n5)" by blast
  from call run have m: "main_loop func up quick_compute rnd limit 0 f5 n5 = Inr fs" by simp
  have ex: "\<forall>n g p. g < n \<and> n \<le> val n5 \<and> func n g = Inr p
      \<longrightarrow> g ^ (p div 2) + 1 < 2 ^ 53"
    using exact inv(4) by (meson order_trans)
  from main_loop_inv[OF inv(1,2,3) ex, of up quick_compute rnd limit 0 f5] m inv(5)
    main_loop_sorted[OF m]
  show ?thesis by simp
qed

subsection \<open>Runs on concrete inputs\<close>

lemma isqrt_upto_eq:
  assumes "k \<le> m" and "k * k \<le> x" and "x < Suc k * Suc k"
  shows "isqrt_upto m x = k"
  using assms(1)
proof (induction m)
  case 0
  then show ?case by simp
next
  case (Suc m)
  show ?case
  proof (cases "Suc m * Suc m \<le> x")
    case True
    with assms(3) have "Suc m * Suc m < Suc k * Suc k" by simp
    have "Suc m < Suc k"
    proof (rule ccontr)
      assume "\<not> Suc m < Suc k"
      then have le: "Suc k \<le> Suc m" by simp
      from mult_le_mono[OF le le] \<open>Suc m * Suc m < Suc k * Suc k\<close> show False by simp
    qed
    with Suc.prems have eq: "Suc m = k" by simp
    from True have "isqrt_upto (Suc m) x = Suc m" by simp
    then show ?thesis unfolding eq .
  next
    case False
    with assms(2) have "k \<noteq> Suc m" by auto
    with Suc.prems have "k \<le> m" by simp
    from Suc.IH[OF this] False show ?thesis by simp
  qed
qed

lemma isqrt_eq:
  assumes "k * k \<le> x" and "x < Suc k * Suc k"
  shows "isqrt x = k"
proof -
  have "k \<le> k * k" by (cases k) simp_all
  from this assms(1) have "k \<le> x" by (rule order_trans)
  from isqrt_upto_eq[OF this assms] show ?thesis by (simp add: isqrt_def)
qed

lemma main_loop_numeral:
  "main_loop func up quick_compute rnd (numeral k) i factorization num =
     (case body func up quick_compute (rnd i) factorization num of
        Return fs \<Rightarrow> Inr fs
      | Raise e \<Rightarrow> Inl e
      | Continue factorization' num' \<Rightarrow>
          main_loop func up quick_compute rnd (pred_numeral k) (Suc i) factorization' num')"
  by (simp add: numeral_eq_Suc)

lemma period_search_numeral:
  "period_search (numeral k) num a r v =
     (if v = 1 then Inr r else period_search (pred_numeral k) num a (r + 1) (v * a mod num))"
  by (simp add: numeral_eq_Suc)

lemma truediv_overflow:
  assumes "float_bound \<le> val num div d" and "d \<noteq> 0"
  shows "truediv num d = Inl OverflowError"
  using fl_ge_power[of 1024 "val num div d"] assms
  by (simp add: truediv_def float_bound_def)



lemma strip_21:
  "strip_factor 2 [] (IntN 21) = Some (Inr ([], IntN 21))"
  "strip_factor 5 [] (IntN 21) = Some (Inr ([], IntN 21))"
  by (simp_all add: strip_factor.simps)

lemma strip_15:
  "strip_factor 2 [] (IntN 15) = Some (Inr ([], IntN 15))"
  "strip_factor 5 [] (IntN 15) = Some (Inr ([5], FloatN 3))"
proof -
  show "strip_factor 2 [] (IntN 15) = Some (Inr ([], IntN 15))"
    by (simp add: strip_factor.simps)
  have "truediv (IntN 15) 5 = Inr (FloatN 3)"
    using truediv_small[of "IntN 15" 5] by simp
  then show "strip_factor 5 [] (IntN 15) = Some (Inr ([5], FloatN 3))"
    by (simp add: strip_factor.simps)
qed

lemma isqrt_values: "isqrt 3 = 1" "isqrt 21 = 4" "isqrt 169541 = 411"
  by (rule isqrt_eq; simp)+

lemma body_21_period_2:
  "body (\<lambda>n g. Inr 2) up False 5 [] (IntN 21) = Continue [3, 7, Suc 0, Suc 0] (FloatN (Suc 0))"
proof -
  have p: "float_pow up 8 2 = Inr 8" using float_pow_exact[of 8 2 up] by simp
  have f: "fl 9 = 9" "fl 7 = 7" by (simp_all add: fl_exact)
  have t: "power_test up 8 2 (IntN 21) = Inr (Some (9, 7))"
    by (simp add: power_test_small p f)
  have g: "py_gcd 9 21 = 3" "py_gcd 7 21 = 7" "py_gcd 7 7 = 7" "py_gcd 8 (Suc 0) = Suc 0"
    by (simp_all add: py_gcd_def gcd_nat.simps)
  have d: "truediv (IntN 21) 3 = Inr (FloatN 7)" "truediv (FloatN 7) 7 = Inr (FloatN (Suc 0))"
    "truediv (FloatN (Suc 0)) (Suc 0) = Inr (FloatN (Suc 0))"
    using truediv_small[of "IntN 21" 3] truediv_small[of "FloatN 7" 7]
      truediv_small[of "FloatN (Suc 0)" "Suc 0"] by simp_all
  have e: "extract_factors False 8 2 9 7 [] (IntN 21)
      = Continue [3, 7, Suc 0, Suc 0] (FloatN (Suc 0))"
    by (simp add: extract_factors_def Let_def g d conclude_def)
  have m: "int_mod 8 (IntN 21) = Inr 8" by (simp add: int_mod_def)
  show ?thesis
    by (simp add: body_def isqrt_values randint_def m t e)
qed

lemma body_one:
  "body func up quick_compute r [3, 7, Suc 0, Suc 0] (FloatN (Suc 0)) = Return [3, 7]"
  by (simp add: body_def finish_def)

lemma Shor_21:
  "ShorFactoringAlgorithmClassical 21 2 (\<lambda>n g. Inr 2) False (\<lambda>i. 5) up = Some (Inr [3, 7])"
  by (simp add: ShorFactoringAlgorithmClassical_def strip_21 main_loop_numeral
      body_21_period_2 body_one)

lemma body_3: "body func up quick_compute r [5] (FloatN 3) = Continue [5] (FloatN 3)"
  by (simp add: body_def isqrt_values randint_def)

lemma Shor_15:
  "ShorFactoringAlgorithmClassical 15 2 func quick_compute rnd up = Some (Inr [3, 5])"
  by (simp add: ShorFactoringAlgorithmClassical_def strip_15 main_loop_numeral body_3 finish_def)

lemma period_169541: "FactorFuncs_period 169541 29918 = Inr 8"
  by (simp add: FactorFuncs_period_def period_search_numeral)

lemma bits_60: "bits 801180243481052176 = 60" "bits 801180243481052161 = 60"
  "bits 801180243481052159 = 60"
  by (simp_all add: bits.simps)

lemma fl_values:
  "fl 801180243481052161 = 801180243481052160"
  "fl 801180243481052159 = 801180243481052160"
  by (simp_all add: fl_def bits_60)

lemma pow_round_value: "pow_round up 801180243481052176 = 801180243481052160"
  by (simp add: pow_round_def bits_60)

lemma gcd_values: "gcd (801180243481052160::nat) 169541 = 17"
  "gcd (801180243481052160::nat) 9973 = 1"
  by (simp_all add: gcd_nat.simps)

lemma float_pow_169541: "float_pow up 29918 8 = Inr 801180243481052160"
proof -
  have c: "to_float 4 = Inr 4" "to_float 29918 = Inr 29918" by (simp_all add: to_float_small)
  have "(29918::nat) ^ 4 = 801180243481052176" by simp
  then show ?thesis by (simp add: float_pow_def c bind_err_def pow_round_value float_bound_def)
qed

lemma extract_169541:
  "extract_factors False 29918 8 801180243481052160 801180243481052160 [] (IntN 169541)
     = Continue [17, 17] (FloatN 9973)"
proof -
  have d: "truediv (IntN 169541) 17 = Inr (FloatN 9973)"
    "truediv (FloatN 9973) (Suc 0) = Inr (FloatN 9973)"
    using truediv_small[of "IntN 169541" 17] truediv_small[of "FloatN 9973" "Suc 0"]
    by simp_all
  show ?thesis
    by (simp add: extract_factors_def py_gcd_def gcd_values d conclude_def)
qed

lemma body_169541:
  "body FactorFuncs_period up False 29915 [] (IntN 169541) = Continue [17, 17] (FloatN 9973)"
proof -
  have t: "power_test up 29918 8 (IntN 169541)
      = Inr (Some (801180243481052160, 801180243481052160))"
    by (simp add: power_test_small float_pow_169541 fl_values)
  have m: "int_mod 29918 (IntN 169541) = Inr 29918" by (simp add: int_mod_def)
  show ?thesis
    by (simp add: body_def isqrt_values randint_def period_169541 m t extract_169541)
qed

lemma Shor_169541:
  "ShorFactoringAlgorithmClassical 169541 1 FactorFuncs_period False (\<lambda>i. 29915) up
     = Some (Inr [17, 17, 9973])"
proof -
  have s: "strip_factor 2 [] (IntN 169541) = Some (Inr ([], IntN 169541))"
    "strip_factor 5 [] (IntN 169541) = Some (Inr ([], IntN 169541))"
    by (simp_all add: strip_factor.simps)
  have m: "main_loop FactorFuncs_period up False (\<lambda>i. 29915) (Suc 0) 0 [] (IntN 169541)
      = Inr [17, 17, 9973]"
    by (simp add: body_169541 finish_def)
  show ?thesis
    using m by (simp add: ShorFactoringAlgorithmClassical_def s)
qed

lemma big_power_3: "float_bound \<le> 3 ^ 700"
proof -
  have "(2::nat) ^ 1024 \<le> 2 ^ (3 * 350)" by (rule power_increasing) simp_all
  also have "\<dots> = ((2::nat) ^ 3) ^ 350" by (rule power_mult)
  also have "\<dots> \<le> ((3::nat) ^ 2) ^ 350" by (rule power_mono) simp_all
  also have "\<dots> = (3::nat) ^ (2 * 350)" by (rule power_mult[symmetric])
  finally have "(2::nat) ^ 1024 \<le> 3 ^ (2 * 350)" .
  moreover have "(2::nat) * 350 = 700" by simp
  ultimately show ?thesis by (simp only: float_bound_def)
qed

lemma strip_overflow:
  assumes "p \<noteq> 0" and "float_bound \<le> q"
  shows "strip_factor p f (IntN (p * q)) = Some (Inl OverflowError)"
proof -
  have "truediv (IntN (p * q)) p = Inl OverflowError"
    using assms by (intro truediv_overflow) simp_all
  then show ?thesis by (subst strip_factor.simps) simp
qed

lemma Shor_overflow_2:
  assumes "float_bound \<le> q"
  shows "ShorFactoringAlgorithmClassical (2 * q) limit func quick_compute rnd up
     = Some (Inl OverflowError)"
  using strip_overflow[of 2 q "[]"] assms
  by (simp add: ShorFactoringAlgorithmClassical_def)



text \<open>
  C3 fails on the code. For \<open>num = 169541 = 9973 * 17\<close> and the draw \<open>guessFactor = 29918\<close>,
  whose period is 8, the power \<open>29918 ** 4.0\<close> is above \<open>2 ** 53\<close> and is rounded, and the
  float additions \<open>+ 1\<close> and \<open>- 1\<close> give the same double back. Both appended factors are
  then \<open>gcd(801180243481052160, 169541) = 17\<close>, the cofactor is divided by 17 once, and the
  call returns \<open>[17, 17, 9973]\<close>, whose product is not \<open>num\<close>. The list is sorted and has no
  1 in it. The exact power is an eighth of the way between two doubles, far from the
  middle, so the result does not depend on \<open>up\<close>. (With every power below \<open>2 ** 53\<close> the
  product is \<open>num\<close>: \<open>factorization_product_in_exact_range\<close>.)
\<close>

theorem factorization_product_fails_on_rounded_power:
  "ShorFactoringAlgorithmClassical 169541 1 FactorFuncs_period False (\<lambda>i. 29915) up
     = Some (Inr [17, 17, 9973])
   \<and> prod_list [17, 17, 9973 :: nat] \<noteq> 169541
   \<and> sorted [17, 17, 9973 :: nat] \<and> 1 \<notin> set [17, 17, 9973 :: nat]"
  using Shor_169541[of up] by simp

text \<open>
  C4, as the code has it. For every \<open>num \<ge> 1\<close> the call ends, by a return or by an
  exception, and the main loop makes at most \<open>limit\<close> passes. For \<open>num\<close> below \<open>2 ** 53\<close>,
  where a double holds the cofactor exactly, and a period function that raises nothing
  but \<open>ValueError\<close> and \<open>OverflowError\<close>, both stripping loops return, the call returns a
  sorted list and raises nothing, and when all \<open>limit\<close> passes went by without a return
  the list is the accumulated factors with the remaining cofactor appended, 1s removed,
  sorted.
\<close>

theorem factorization_terminates:
  assumes "1 \<le> num"
  shows "(\<exists>r. ShorFactoringAlgorithmClassical num limit func quick_compute rnd up = Some r)
       \<and> passes func up quick_compute rnd limit i f n \<le> limit
       \<and> (num < 2 ^ 53
            \<and> (\<forall>n g e. func n g = Inl e \<longrightarrow> e = ValueError \<or> e = OverflowError) \<longrightarrow>
          (\<exists>f2 n2 f5 n5. strip_factor 2 [] (IntN num) = Some (Inr (f2, n2))
             \<and> strip_factor 5 f2 n2 = Some (Inr (f5, n5))
             \<and> ShorFactoringAlgorithmClassical num limit func quick_compute rnd up
                 = Some (main_loop func up quick_compute rnd limit 0 f5 n5)
             \<and> (\<exists>fs. main_loop func up quick_compute rnd limit 0 f5 n5 = Inr fs \<and> sorted fs)
             \<and> (\<forall>f n. state_after func up quick_compute rnd limit 0 f5 n5 = Some (f, n) \<longrightarrow>
                   main_loop func up quick_compute rnd limit 0 f5 n5
                     = Inr (finish (f @ [val n])))))"
proof -
  have small: "\<exists>f2 n2 f5 n5. strip_factor 2 [] (IntN num) = Some (Inr (f2, n2))
      \<and> strip_factor 5 f2 n2 = Some (Inr (f5, n5))
      \<and> ShorFactoringAlgorithmClassical num limit func quick_compute rnd up
          = Some (main_loop func up quick_compute rnd limit 0 f5 n5)
      \<and> (\<exists>fs. main_loop func up quick_compute rnd limit 0 f5 n5 = Inr fs \<and> sorted fs)
      \<and> (\<forall>f n. state_after func up quick_compute rnd limit 0 f5 n5 = Some (f, n) \<longrightarrow>
            main_loop func up quick_compute rnd limit 0 f5 n5 = Inr (finish (f @ [val n])))"
    if s: "num < 2 ^ 53"
      and ok: "\<forall>n g e. func n g = Inl e \<longrightarrow> e = ValueError \<or> e = OverflowError"
  proof -
    from Shor_small[OF assms s, of limit func quick_compute rnd up] obtain f2 n2 f5 n5
      where st: "strip_factor 2 [] (IntN num) = Some (Inr (f2, n2))"
        "strip_factor 5 f2 n2 = Some (Inr (f5, n5))"
        and inv: "1 \<le> val n5" "val n5 < 2 ^ 53"
        and call: "ShorFactoringAlgorithmClassical num limit func quick_compute rnd up
           = Some (main_loop func up quick_compute rnd limit 0 f5 n5)" by blast
    from main_loop_small[OF inv ok, of up quick_compute rnd limit 0 f5] obtain fs
      where m: "main_loop func up quick_compute rnd limit 0 f5 n5 = Inr fs" by blast
    from main_loop_sorted[OF m] m
    have ret: "\<exists>fs. main_loop func up quick_compute rnd limit 0 f5 n5 = Inr fs \<and> sorted fs"
      by blast
    from st call ret state_after_exhausted show ?thesis by blast
  qed
  from Shor_ends[OF assms, of limit func quick_compute rnd up]
    passes_le[of func up quick_compute rnd limit i f n] small
  show ?thesis by blast
qed

theorem factorization_terminates_witness:
  "(\<exists>r. ShorFactoringAlgorithmClassical 15 2 (\<lambda>n g. Inl ValueError) False (\<lambda>i. 0) (\<lambda>g k. False)
          = Some r)
   \<and> strip_factor 2 [] (IntN 15) = Some (Inr ([], IntN 15))
   \<and> strip_factor 5 [] (IntN 15) = Some (Inr ([5], FloatN 3))
   \<and> state_after (\<lambda>n g. Inl ValueError) (\<lambda>g k. False) False (\<lambda>i. 0) 2 0 [5] (FloatN 3)
       = Some ([5], FloatN 3)
   \<and> ShorFactoringAlgorithmClassical 15 2 (\<lambda>n g. Inl ValueError) False (\<lambda>i. 0) (\<lambda>g k. False)
       = Some (Inr [3, 5])
   \<and> passes (\<lambda>n g. Inl ValueError) (\<lambda>g k. False) False (\<lambda>i. 0) 2 0 [5] (FloatN 3) \<le> 2"
proof -
  have h1: "(1::nat) \<le> 15" by simp
  have h2: "(15::nat) < 2 ^ 53
      \<and> (\<forall>n g e. (\<lambda>n g. Inl ValueError :: error + nat) n g = Inl e
            \<longrightarrow> e = ValueError \<or> e = OverflowError)"
    by simp
  have st: "state_after (\<lambda>n g. Inl ValueError) (\<lambda>g k. False) False (\<lambda>i. 0) 2 0 [5] (FloatN 3)
      = Some ([5], FloatN 3)"
    by (simp add: numeral_2_eq_2 body_3)
  from factorization_terminates[OF h1, of 2 "\<lambda>n g. Inl ValueError" False "\<lambda>i. 0" "\<lambda>g k. False"
      0 "[5]" "FloatN 3"] h2 st
  show ?thesis by (simp add: strip_15 Shor_15)
qed

text \<open>
  C4 as the spec states it fails: \<open>num = 2 * 3 ** 700\<close> is even, its half has no double,
  and \<open>num /= 2\<close>, which is outside every \<open>try\<close>, raises \<open>OverflowError\<close>: the call returns
  no list, with \<open>limit = 0\<close> as with any other.
\<close>

theorem factorization_overflow_counterexample:
  "ShorFactoringAlgorithmClassical (2 * 3 ^ 700) 0 FactorFuncs_period False (\<lambda>i. 0) (\<lambda>g k. False)
     = Some (Inl OverflowError)"
  by (rule Shor_overflow_2[OF big_power_3])






text \<open>
  C10: the call ends (returns or raises) exactly for \<open>num \<ge> 1\<close>. For \<open>num = 0\<close> the loop
  \<open>while num % 2 == 0\<close> never exits, whatever is in the list: \<open>0 / 2\<close> is \<open>0.0\<close>, and
  \<open>0.0 % 2 == 0\<close> again.
\<close>

theorem factorization_total_iff_positive:
  "(\<exists>r. ShorFactoringAlgorithmClassical num limit func quick_compute rnd up = Some r)
     = (1 \<le> num)
   \<and> strip_factor 2 factorization (IntN 0) = None
   \<and> strip_factor 2 factorization (FloatN 0) = None"
proof -
  have two: "(2::nat) \<noteq> 0" by simp
  have z: "strip_factor 2 factorization n = None" if "val n = 0" for n
    using strip_factor_zero[of 2 factorization n, OF _ two] that
    by (cases "strip_factor 2 factorization n") auto
  have "\<exists>r. ShorFactoringAlgorithmClassical num limit func quick_compute rnd up = Some r"
    if "1 \<le> num"
    using Shor_ends[OF that, of limit func quick_compute rnd up] by blast
  moreover have "1 \<le> num"
    if "ShorFactoringAlgorithmClassical num limit func quick_compute rnd up = Some r" for r
  proof (cases "num = 0")
    case True
    with that Shor_zero[of limit func quick_compute rnd up] show ?thesis by simp
  next
    case False
    then show ?thesis by simp
  qed
  ultimately show ?thesis using z[of "IntN 0"] z[of "FloatN 0"] by auto
qed

theorem factorization_total_iff_positive_witness:
  "ShorFactoringAlgorithmClassical 0 1000 (\<lambda>n g. Inr 2) False (\<lambda>i. 5) (\<lambda>g k. False) = None
   \<and> strip_factor 2 [] (IntN 0) = None
   \<and> (\<exists>r. ShorFactoringAlgorithmClassical 15 2 (\<lambda>n g. Inr 2) False (\<lambda>i. 5) (\<lambda>g k. False)
             = Some r)"
proof -
  note z = factorization_total_iff_positive[of 0 1000 "\<lambda>n g. Inr 2" False "\<lambda>i. 5" "\<lambda>g k. False" "[]"]
  note p = factorization_total_iff_positive[of 15 2 "\<lambda>n g. Inr 2" False "\<lambda>i. 5" "\<lambda>g k. False" "[]"]
  have "ShorFactoringAlgorithmClassical 0 1000 (\<lambda>n g. Inr 2) False (\<lambda>i. 5) (\<lambda>g k. False) = None"
    using z
    by (cases "ShorFactoringAlgorithmClassical 0 1000 (\<lambda>n g. Inr 2) False (\<lambda>i. 5) (\<lambda>g k. False)")
      auto
  moreover have "\<exists>r. ShorFactoringAlgorithmClassical 15 2 (\<lambda>n g. Inr 2) False (\<lambda>i. 5)
      (\<lambda>g k. False) = Some r"
    using p by simp
  ultimately show ?thesis using z by simp
qed

section \<open>Properties of the controlled multiplication\<close>





































end
